theory Spec2Isabelle
  imports Complex_Main "HOL-Library.Multiset"
begin

section \<open>Python values and failures\<close>

text \<open>
  The exceptions the modelled code can raise: \<open>list.index\<close>, \<open>min\<close>, \<open>max\<close> and
  \<open>math.log\<close> raise ValueError, \<open>list.pop\<close>, \<open>xs[0]\<close> and \<open>random.choice\<close> raise
  IndexError, \<open>/\<close> raises ZeroDivisionError. A computation that may raise returns
  \<open>py_error + 'a\<close>, with \<open>Inl\<close> for the exception.
\<close>

datatype py_error = ValueError | IndexError | ZeroDivisionError

definition and_then :: "py_error + 'a \<Rightarrow> ('a \<Rightarrow> py_error + 'b) \<Rightarrow> py_error + 'b" where
  "and_then r f = (case r of Inl e \<Rightarrow> Inl e | Inr v \<Rightarrow> f v)"

text \<open>A comprehension \<open>[f(x) for x in xs]\<close> whose body may raise: the first failure ends it.\<close>

fun map_err :: "('a \<Rightarrow> py_error + 'b) \<Rightarrow> 'a list \<Rightarrow> py_error + 'b list" where
  "map_err f [] = Inr []"
| "map_err f (x # xs) =
     (case f x of Inl e \<Rightarrow> Inl e
      | Inr y \<Rightarrow> (case map_err f xs of Inl e \<Rightarrow> Inl e | Inr ys \<Rightarrow> Inr (y # ys)))"

text \<open>\<open>xs.index(x)\<close>: the position of the first occurrence, ValueError when there is none.\<close>

fun index_of :: "'a list \<Rightarrow> 'a \<Rightarrow> py_error + nat" where
  "index_of [] x = Inl ValueError"
| "index_of (y # ys) x =
     (if y = x then Inr 0
      else (case index_of ys x of Inl e \<Rightarrow> Inl e | Inr n \<Rightarrow> Inr (Suc n)))"

text \<open>\<open>min(xs)\<close>: ValueError on an empty sequence.\<close>

definition py_min :: "nat list \<Rightarrow> py_error + nat" where
  "py_min xs = (case xs of [] \<Rightarrow> Inl ValueError | x # ys \<Rightarrow> Inr (fold min ys x))"

text \<open>
  \<open>sorted(xs, key=f, reverse=True)\<close>: the keys are computed first (any failure is
  raised), then the list is sorted stably in descending key order, which CPython does
  by reversing, sorting stably in ascending order and reversing again.
\<close>

definition sorted_reverse :: "('a \<Rightarrow> py_error + nat) \<Rightarrow> 'a list \<Rightarrow> py_error + 'a list" where
  "sorted_reverse f xs =
     (case map_err f xs of Inl e \<Rightarrow> Inl e
      | Inr ks \<Rightarrow> Inr (map snd (rev (sort_key fst (rev (zip ks xs))))))"

text \<open>
  \<open>collections.Counter(xs)\<close>: a dictionary from each distinct element to its number of
  occurrences, in the order of first occurrence; \<open>.values()\<close> are the counts.
\<close>

fun counter_add :: "'a \<Rightarrow> ('a \<times> nat) list \<Rightarrow> ('a \<times> nat) list" where
  "counter_add x [] = [(x, 1)]"
| "counter_add x ((k, n) # kvs) =
     (if k = x then (k, Suc n) # kvs else (k, n) # counter_add x kvs)"

definition Counter :: "'a list \<Rightarrow> ('a \<times> nat) list" where
  "Counter xs = fold counter_add xs []"

definition counter_values :: "'a list \<Rightarrow> nat list" where
  "counter_values xs = map snd (Counter xs)"

text \<open>
  The module \<open>random\<close> is modelled by a fixed but arbitrary sequence \<open>rnd\<close> of raw
  values and a counter \<open>k\<close> of the values consumed so far: \<open>randbelow(n)\<close> is
  \<open>rnd k mod n\<close> and advances the counter.
\<close>

type_synonym rng = "nat \<Rightarrow> nat"

text \<open>
  \<open>random.shuffle(x)\<close>:
  \<^verbatim>\<open>for i in reversed(range(1, len(x))): j = randbelow(i + 1); x[i], x[j] = x[j], x[i]\<close>
\<close>

fun shuffle_from :: "rng \<Rightarrow> nat \<Rightarrow> nat \<Rightarrow> 'a list \<Rightarrow> 'a list \<times> nat" where
  "shuffle_from rnd k 0 xs = (xs, k)"
| "shuffle_from rnd k (Suc i) xs =
     (let j = rnd k mod (Suc i + 1)
      in shuffle_from rnd (Suc k) i (xs[Suc i := xs ! j, j := xs ! Suc i]))"

definition shuffle :: "rng \<Rightarrow> nat \<Rightarrow> 'a list \<Rightarrow> 'a list \<times> nat" where
  "shuffle rnd k xs = shuffle_from rnd k (length xs - 1) xs"

text \<open>\<open>random.choice(xs)\<close>: \<open>xs[randbelow(len(xs))]\<close>, IndexError on an empty sequence.\<close>

definition choice :: "rng \<Rightarrow> nat \<Rightarrow> 'a list \<Rightarrow> py_error + ('a \<times> nat)" where
  "choice rnd k xs =
     (if xs = [] then Inl IndexError else Inr (xs ! (rnd k mod length xs), Suc k))"

section \<open>Card and Deck\<close>

record card =
  rank :: string
  suit :: string

definition ranks :: "string list" where
  "ranks = [''2'', ''3'', ''4'', ''5'', ''6''] @ [''7'', ''8'', ''9'', ''10''] @
     [''J'', ''Q'', ''K'', ''A'']"

definition suits :: "string list" where
  "suits = [''Clubs'', ''Diamonds'', ''Hearts'', ''Spades'']"

definition Card :: "string \<Rightarrow> string \<Rightarrow> card" where
  "Card r s = \<lparr>rank = r, suit = s\<rparr>"

text \<open>\<open>Card.ranks.index(card.rank)\<close>\<close>

definition rank_index :: "card \<Rightarrow> py_error + nat" where
  "rank_index c = index_of ranks (rank c)"

text \<open>\<open>[Card(rank, suit) for rank in Card.ranks for suit in Card.suits]\<close>\<close>

definition deck_cards :: "card list" where
  "deck_cards = concat (map (\<lambda>r. map (\<lambda>s. Card r s) suits) ranks)"

text \<open>\<open>Deck.__init__\<close>: the 52 cards, shuffled. A deck is its list of cards.\<close>

definition Deck :: "rng \<Rightarrow> nat \<Rightarrow> card list \<times> nat" where
  "Deck rnd k = shuffle rnd k deck_cards"

text \<open>\<open>Deck.draw_card\<close>: \<open>self.cards.pop()\<close> removes and returns the last card.\<close>

definition draw_card :: "card list \<Rightarrow> py_error + (card \<times> card list)" where
  "draw_card cards = (if cards = [] then Inl IndexError else Inr (last cards, butlast cards))"

text \<open>Drawing \<open>n\<close> times in a row: the cards drawn, in the order drawn, and the deck left.\<close>

fun draw_cards :: "nat \<Rightarrow> card list \<Rightarrow> py_error + (card list \<times> card list)" where
  "draw_cards 0 d = Inr ([], d)"
| "draw_cards (Suc n) d =
     (case draw_card d of Inl e \<Rightarrow> Inl e
      | Inr (c, d') \<Rightarrow> (case draw_cards n d' of Inl e \<Rightarrow> Inl e | Inr (cs, d'') \<Rightarrow> Inr (c # cs, d'')))"

section \<open>PokerHand\<close>

text \<open>The predicates of \<open>PokerHand\<close>, on \<open>self.cards\<close>. They are the same in
  \<^verbatim>\<open>10_poker_AI_GPT.py\<close> and \<^verbatim>\<open>6_poker_holdem_final.py\<close>, \<open>is_straight\<close> apart.\<close>

definition is_four_of_a_kind :: "card list \<Rightarrow> bool" where
  "is_four_of_a_kind cards = (4 \<in> set (counter_values (map rank cards)))"

definition is_full_house :: "card list \<Rightarrow> bool" where
  "is_full_house cards =
     (let rs = counter_values (map rank cards) in 3 \<in> set rs \<and> 2 \<in> set rs)"

definition is_flush :: "card list \<Rightarrow> bool" where
  "is_flush cards = (card (set (map suit cards)) = 1)"

text \<open>\<^verbatim>\<open>10_poker_AI_GPT.py\<close>:
  \<^verbatim>\<open>indices = sorted(Card.ranks.index(card.rank) for card in self.cards)\<close>
  \<^verbatim>\<open>return indices == list(range(min(indices), min(indices) + 5)) or indices == [0, 1, 2, 3, 12]\<close>\<close>

definition is_straight :: "card list \<Rightarrow> py_error + bool" where
  "is_straight cards =
     and_then (map_err rank_index cards) (\<lambda>ks.
       let indices = sort ks in
       and_then (py_min indices) (\<lambda>m.
         Inr (indices = [m ..< m + 5] \<or> indices = [0, 1, 2, 3, 12])))"

text \<open>\<^verbatim>\<open>6_poker_holdem_final.py\<close>: the same test written with \<open>ranks[0]\<close> of the sorted
  list, which raises IndexError on an empty hand.\<close>

definition is_straight6 :: "card list \<Rightarrow> py_error + bool" where
  "is_straight6 cards =
     and_then (map_err rank_index cards) (\<lambda>ks.
       let rs = sort ks in
       (case rs of [] \<Rightarrow> Inl IndexError
        | r0 # _ \<Rightarrow>
            if rs = [r0 ..< r0 + 5] then Inr True
            else if rs = [0, 1, 2, 3, 12] then Inr True
            else Inr False))"

definition is_straight_flush :: "card list \<Rightarrow> py_error + bool" where
  "is_straight_flush cards = and_then (is_straight cards) (\<lambda>st. Inr (st \<and> is_flush cards))"

definition is_straight_flush6 :: "card list \<Rightarrow> py_error + bool" where
  "is_straight_flush6 cards = and_then (is_straight6 cards) (\<lambda>st. Inr (st \<and> is_flush cards))"

definition is_three_of_a_kind :: "card list \<Rightarrow> bool" where
  "is_three_of_a_kind cards = (3 \<in> set (counter_values (map rank cards)))"

definition is_two_pair :: "card list \<Rightarrow> bool" where
  "is_two_pair cards = (count_list (counter_values (map rank cards)) 2 = 2)"

definition is_one_pair :: "card list \<Rightarrow> bool" where
  "is_one_pair cards = (2 \<in> set (counter_values (map rank cards)))"

text \<open>\<open>PokerHand.evaluate_hand\<close> of \<^verbatim>\<open>10_poker_AI_GPT.py\<close>: the category alone.\<close>

definition evaluate_hand :: "card list \<Rightarrow> py_error + string" where
  "evaluate_hand cards =
     and_then (is_straight_flush cards) (\<lambda>sf.
       if sf then Inr ''Straight Flush''
       else if is_four_of_a_kind cards then Inr ''Four of a Kind''
       else if is_full_house cards then Inr ''Full House''
       else if is_flush cards then Inr ''Flush''
       else and_then (is_straight cards) (\<lambda>st.
         if st then Inr ''Straight''
         else if is_three_of_a_kind cards then Inr ''Three of a Kind''
         else if is_two_pair cards then Inr ''Two Pair''
         else if is_one_pair cards then Inr ''One Pair''
         else Inr ''High Card''))"

text \<open>\<open>PokerHand.evaluate_hand\<close> of \<^verbatim>\<open>6_poker_holdem_final.py\<close>: the category and
  \<open>self.cards[0].rank\<close>.\<close>

definition cards0_rank :: "card list \<Rightarrow> py_error + string" where
  "cards0_rank cards = (case cards of [] \<Rightarrow> Inl IndexError | c # _ \<Rightarrow> Inr (rank c))"

definition evaluate_hand6 :: "card list \<Rightarrow> py_error + (string \<times> string)" where
  "evaluate_hand6 cards =
     and_then (is_straight_flush6 cards) (\<lambda>sf.
       if sf then and_then (cards0_rank cards) (\<lambda>r. Inr (''Straight Flush'', r))
       else if is_four_of_a_kind cards then and_then (cards0_rank cards) (\<lambda>r. Inr (''Four of a Kind'', r))
       else if is_full_house cards then and_then (cards0_rank cards) (\<lambda>r. Inr (''Full House'', r))
       else if is_flush cards then and_then (cards0_rank cards) (\<lambda>r. Inr (''Flush'', r))
       else and_then (is_straight6 cards) (\<lambda>st.
         if st then and_then (cards0_rank cards) (\<lambda>r. Inr (''Straight'', r))
         else if is_three_of_a_kind cards then and_then (cards0_rank cards) (\<lambda>r. Inr (''Three of a Kind'', r))
         else if is_two_pair cards then and_then (cards0_rank cards) (\<lambda>r. Inr (''Two Pair'', r))
         else if is_one_pair cards then and_then (cards0_rank cards) (\<lambda>r. Inr (''One Pair'', r))
         else and_then (cards0_rank cards) (\<lambda>r. Inr (''High Card'', r))))"

text \<open>\<open>PokerHand.__init__\<close>: \<open>self.cards\<close> sorted by descending rank index, then
  \<open>self.rank = self.evaluate_hand()\<close>. The object is the pair of its two fields.\<close>

definition PokerHand :: "card list \<Rightarrow> py_error + (card list \<times> string)" where
  "PokerHand cards =
     and_then (sorted_reverse rank_index cards) (\<lambda>cs.
       and_then (evaluate_hand cs) (\<lambda>r. Inr (cs, r)))"

definition PokerHand6 :: "card list \<Rightarrow> py_error + (card list \<times> (string \<times> string))" where
  "PokerHand6 cards =
     and_then (sorted_reverse rank_index cards) (\<lambda>cs.
       and_then (evaluate_hand6 cs) (\<lambda>r. Inr (cs, r)))"

subsection \<open>Derived notions used in the statements\<close>

text \<open>\<open>PokerHand(cards).rank\<close> for the two files: the value a caller reads off the object.\<close>

definition hand_rank :: "card list \<Rightarrow> py_error + string" where
  "hand_rank cards = and_then (PokerHand cards) (\<lambda>h. Inr (snd h))"

definition hand_rank6 :: "card list \<Rightarrow> py_error + (string \<times> string)" where
  "hand_rank6 cards = and_then (PokerHand6 cards) (\<lambda>h. Inr (snd h))"

text \<open>A hand whose cards all carry a rank of \<open>Card.ranks\<close>, as every card of a \<open>Deck\<close> does.\<close>

definition valid_cards :: "card list \<Rightarrow> bool" where
  "valid_cards cards = list_all (\<lambda>c. rank c \<in> set ranks) cards"

text \<open>The nine values \<open>evaluate_hand\<close> can return.\<close>

definition hand_categories :: "string list" where
  "hand_categories = [''Straight Flush'', ''Four of a Kind'', ''Full House'', ''Flush'',
     ''Straight'', ''Three of a Kind'', ''Two Pair'', ''One Pair'', ''High Card'']"

text \<open>Proof notions: the rank index as a total function, and the sorted hand of a valid input.\<close>

definition ridx :: "card \<Rightarrow> nat" where
  "ridx c = (case rank_index c of Inl _ \<Rightarrow> 0 | Inr n \<Rightarrow> n)"

definition desc_sort :: "card list \<Rightarrow> card list" where
  "desc_sort cards = map snd (rev (sort_key fst (rev (zip (map ridx cards) cards))))"

section \<open>PokerGameState\<close>

record game_state =
  hand :: "card list"
  community_cards :: "card list"
  pot :: int
  current_bet :: int
  is_terminal_state :: bool

text \<open>\<open>PokerGameState.__init__(hand, community_cards, pot, is_terminal=False, current_bet=0)\<close>;
  the two defaults are written out at each call.\<close>

definition PokerGameState :: "card list \<Rightarrow> card list \<Rightarrow> int \<Rightarrow> bool \<Rightarrow> int \<Rightarrow> game_state" where
  "PokerGameState h c p t b =
     \<lparr>hand = h, community_cards = c, pot = p, current_bet = b, is_terminal_state = t\<rparr>"

text \<open>\<open>[Deck().draw_card() for _ in range(n)]\<close>: every card comes from a deck of its own,
  freshly built and shuffled.\<close>

fun deal :: "rng \<Rightarrow> nat \<Rightarrow> nat \<Rightarrow> py_error + (card list \<times> nat)" where
  "deal rnd k 0 = Inr ([], k)"
| "deal rnd k (Suc n) =
     (case Deck rnd k of (d, k') \<Rightarrow>
        (case draw_card d of Inl e \<Rightarrow> Inl e
         | Inr (c, _) \<Rightarrow>
             (case deal rnd k' n of Inl e \<Rightarrow> Inl e | Inr (cs, k'') \<Rightarrow> Inr (c # cs, k''))))"

definition legal_moves :: "rng \<Rightarrow> nat \<Rightarrow> game_state \<Rightarrow> py_error + (game_state list \<times> nat)" where
  "legal_moves rnd k s =
     (let moves = [PokerGameState (hand s) (community_cards s) (pot s) True 0] in
      if length (community_cards s) < 5 then
        and_then (deal rnd k (5 - length (community_cards s))) (\<lambda>(new_cards, k').
          let moves = moves @
                [PokerGameState (hand s) (community_cards s @ new_cards)
                   (pot s + current_bet s) False 0];
              moves = moves @
                map (\<lambda>raise_amount.
                       PokerGameState (hand s) (community_cards s @ new_cards)
                         (pot s + current_bet s + raise_amount) False 0)
                  [10, 20, 50]
          in Inr (moves, k'))
      else
        Inr (moves @
          [PokerGameState (hand s) (community_cards s) (pot s + current_bet s) True 0], k))"

definition is_terminal :: "game_state \<Rightarrow> bool" where
  "is_terminal s = (is_terminal_state s \<or> length (community_cards s) = 5)"

definition winning_hands :: "string list" where
  "winning_hands = [''Straight Flush'', ''Four of a Kind'', ''Full House'', ''Flush'']"

definition game_result :: "game_state \<Rightarrow> py_error + int" where
  "game_result s =
     and_then (PokerHand (hand s @ community_cards s)) (\<lambda>ph.
       if snd ph \<in> set winning_hands then Inr 1 else Inr (- 1))"

text \<open>\<open>MCTS.simulate_random_game\<close>: the loop
  \<^verbatim>\<open>while not current_state.is_terminal(): current_state = random.choice(current_state.legal_moves())\<close>
  returns the state it stops in (not returning is \<open>None\<close>), then \<open>game_result\<close> is taken.\<close>

partial_function (option) simulate_loop ::
    "rng \<Rightarrow> nat \<Rightarrow> game_state \<Rightarrow> (py_error + (game_state \<times> nat)) option" where
  "simulate_loop rnd k current_state =
     (if \<not> is_terminal current_state then
        (case legal_moves rnd k current_state of
           Inl e \<Rightarrow> Some (Inl e)
         | Inr (possible_moves, k') \<Rightarrow>
             (case choice rnd k' possible_moves of
                Inl e \<Rightarrow> Some (Inl e)
              | Inr (s', k'') \<Rightarrow> simulate_loop rnd k'' s'))
      else Some (Inr (current_state, k)))"

declare simulate_loop.simps [code]

definition simulate_random_game ::
    "rng \<Rightarrow> nat \<Rightarrow> game_state \<Rightarrow> (py_error + (int \<times> nat)) option" where
  "simulate_random_game rnd k state =
     (case simulate_loop rnd k state of
        None \<Rightarrow> None
      | Some (Inl e) \<Rightarrow> Some (Inl e)
      | Some (Inr (current_state, k')) \<Rightarrow>
          Some (and_then (game_result current_state) (\<lambda>r. Inr (r, k'))))"

section \<open>Node and MCTS\<close>

text \<open>
  The search tree is a store of nodes: an object reference is its index in the store, the
  root is created first and has index 0, \<open>None\<close> is \<open>None\<close>. Python's floats are
  modelled by the reals.
\<close>

record node =
  state :: game_state
  parent :: "nat option"
  children :: "nat list"
  wins :: int
  visits :: int

text \<open>\<open>Node.__init__(state, parent=None)\<close>\<close>

definition Node :: "game_state \<Rightarrow> nat option \<Rightarrow> node" where
  "Node s p = \<lparr>state = s, parent = p, children = [], wins = 0, visits = 0\<rparr>"

definition add_child :: "node list \<Rightarrow> nat \<Rightarrow> game_state \<Rightarrow> node list \<times> nat" where
  "add_child h self child_state =
     (let child = length h;
          h' = h @ [Node child_state (Some self)]
      in (h'[self := (h' ! self)\<lparr>children := children (h' ! self) @ [child]\<rparr>], child))"

definition update :: "node list \<Rightarrow> nat \<Rightarrow> int \<Rightarrow> node list" where
  "update h self result =
     (let h' = h[self := (h ! self)\<lparr>visits := visits (h ! self) + 1\<rparr>]
      in h'[self := (h' ! self)\<lparr>wins := wins (h' ! self) + result\<rparr>])"

text \<open>\<open>len(self.children) == len(self.state.legal_moves())\<close>; the call of \<open>legal_moves\<close>
  builds decks, so it advances the random source.\<close>

definition fully_expanded :: "rng \<Rightarrow> nat \<Rightarrow> node list \<Rightarrow> nat \<Rightarrow> py_error + (bool \<times> nat)" where
  "fully_expanded rnd k h self =
     and_then (legal_moves rnd k (state (h ! self))) (\<lambda>(moves, k').
       Inr (length (children (h ! self)) = length moves, k'))"

text \<open>\<open>max(xs, key=f)\<close>: ValueError on an empty sequence; the keys are computed from left
  to right and the first element with the greatest key is returned.\<close>

fun max_from :: "('a \<Rightarrow> py_error + real) \<Rightarrow> 'a \<Rightarrow> real \<Rightarrow> 'a list \<Rightarrow> py_error + 'a" where
  "max_from f b kb [] = Inr b"
| "max_from f b kb (x # xs) =
     (case f x of Inl e \<Rightarrow> Inl e
      | Inr kx \<Rightarrow> if kx > kb then max_from f x kx xs else max_from f b kb xs)"

definition py_max :: "('a \<Rightarrow> py_error + real) \<Rightarrow> 'a list \<Rightarrow> py_error + 'a" where
  "py_max f xs =
     (case xs of [] \<Rightarrow> Inl ValueError
      | x # ys \<Rightarrow> (case f x of Inl e \<Rightarrow> Inl e | Inr kx \<Rightarrow> max_from f x kx ys))"

text \<open>\<open>a / n\<close>, \<open>math.log(n)\<close> and \<open>math.sqrt(x)\<close> with their failures.\<close>

definition py_div :: "real \<Rightarrow> int \<Rightarrow> py_error + real" where
  "py_div a n = (if n = 0 then Inl ZeroDivisionError else Inr (a / real_of_int n))"

definition py_log :: "int \<Rightarrow> py_error + real" where
  "py_log n = (if n \<le> 0 then Inl ValueError else Inr (ln (real_of_int n)))"

definition py_sqrt :: "real \<Rightarrow> py_error + real" where
  "py_sqrt x = (if x < 0 then Inl ValueError else Inr (sqrt x))"

text \<open>The two keys of \<open>Node.best_child\<close>:
  \<^verbatim>\<open>x.wins / x.visits\<close> and
  \<^verbatim>\<open>x.wins / x.visits + exploration_weight * math.sqrt(math.log(self.parent.visits) / x.visits)\<close>\<close>

definition exploit_key :: "node \<Rightarrow> py_error + real" where
  "exploit_key x = py_div (real_of_int (wins x)) (visits x)"

definition ucb1_key :: "real \<Rightarrow> node \<Rightarrow> node \<Rightarrow> py_error + real" where
  "ucb1_key exploration_weight self_parent x =
     and_then (py_div (real_of_int (wins x)) (visits x)) (\<lambda>a.
       and_then (py_log (visits self_parent)) (\<lambda>l.
         and_then (py_div l (visits x)) (\<lambda>q.
           and_then (py_sqrt q) (\<lambda>r. Inr (a + exploration_weight * r)))))"

definition best_child :: "node list \<Rightarrow> nat \<Rightarrow> real \<Rightarrow> py_error + nat" where
  "best_child h self exploration_weight =
     (case parent (h ! self) of
        None \<Rightarrow> py_max (\<lambda>x. exploit_key (h ! x)) (children (h ! self))
      | Some p \<Rightarrow> py_max (\<lambda>x. ucb1_key exploration_weight (h ! p) (h ! x)) (children (h ! self)))"

text \<open>Selection:
  \<^verbatim>\<open>while node.fully_expanded() and not node.state.is_terminal(): node = node.best_child()\<close>
  with the default \<open>exploration_weight=1.41\<close>.\<close>

partial_function (option) select ::
    "rng \<Rightarrow> nat \<Rightarrow> node list \<Rightarrow> nat \<Rightarrow> (py_error + (nat \<times> nat)) option" where
  "select rnd k h node =
     (case fully_expanded rnd k h node of
        Inl e \<Rightarrow> Some (Inl e)
      | Inr (fe, k') \<Rightarrow>
          if fe \<and> \<not> is_terminal (state (h ! node)) then
            (case best_child h node (141 / 100) of
               Inl e \<Rightarrow> Some (Inl e)
             | Inr c \<Rightarrow> select rnd k' h c)
          else Some (Inr (node, k')))"

declare select.simps [code]

text \<open>Expansion. A \<open>PokerGameState\<close> has no \<open>__eq__\<close>, so the states \<open>legal_moves()\<close> has
  just built differ from every child's state and the set difference keeps them all;
  \<open>list(set(...))\<close> lists them in an order of its own, and \<open>random.choice\<close> takes one: some
  element of the moves, here the one at the random index.\<close>

definition expand ::
    "rng \<Rightarrow> nat \<Rightarrow> node list \<Rightarrow> nat \<Rightarrow> py_error + (node list \<times> nat \<times> nat)" where
  "expand rnd k h node =
     and_then (fully_expanded rnd k h node) (\<lambda>(fe, k1).
       if \<not> fe then
         and_then (legal_moves rnd k1 (state (h ! node))) (\<lambda>(moves, k2).
           and_then (choice rnd k2 moves) (\<lambda>(new_state, k3).
             (case add_child h node new_state of (h', child) \<Rightarrow> Inr (h', child, k3))))
       else Inr (h, node, k1))"

text \<open>Backpropagation:
  \<^verbatim>\<open>while node is not None: node.update(outcome); node = node.parent\<close>\<close>

partial_function (option) backpropagate ::
    "node list \<Rightarrow> nat option \<Rightarrow> int \<Rightarrow> node list option" where
  "backpropagate h node outcome =
     (case node of
        None \<Rightarrow> Some h
      | Some n \<Rightarrow>
          (let h' = update h n outcome in backpropagate h' (parent (h' ! n)) outcome))"

declare backpropagate.simps [code]

text \<open>One pass of the body of \<open>for _ in range(1000)\<close>, with \<open>root\<close> at index 0.\<close>

definition simulation ::
    "rng \<Rightarrow> nat \<Rightarrow> node list \<Rightarrow> (py_error + (node list \<times> nat)) option" where
  "simulation rnd k h =
     (case select rnd k h 0 of
        None \<Rightarrow> None
      | Some (Inl e) \<Rightarrow> Some (Inl e)
      | Some (Inr (node, k1)) \<Rightarrow>
          (case expand rnd k1 h node of
             Inl e \<Rightarrow> Some (Inl e)
           | Inr (h1, node1, k2) \<Rightarrow>
               (case simulate_random_game rnd k2 (state (h1 ! node1)) of
                  None \<Rightarrow> None
                | Some (Inl e) \<Rightarrow> Some (Inl e)
                | Some (Inr (outcome, k3)) \<Rightarrow>
                    (case backpropagate h1 (Some node1) outcome of
                       None \<Rightarrow> None
                     | Some h2 \<Rightarrow> Some (Inr (h2, k3))))))"

fun simulations ::
    "nat \<Rightarrow> rng \<Rightarrow> nat \<Rightarrow> node list \<Rightarrow> (py_error + (node list \<times> nat)) option" where
  "simulations 0 rnd k h = Some (Inr (h, k))"
| "simulations (Suc n) rnd k h =
     (case simulation rnd k h of
        None \<Rightarrow> None
      | Some (Inl e) \<Rightarrow> Some (Inl e)
      | Some (Inr (h', k')) \<Rightarrow> simulations n rnd k' h')"

text \<open>\<open>MCTS.choose_move\<close>: \<open>root = Node(state)\<close>, 1000 simulations,
  \<open>return root.best_child().state\<close>.\<close>

definition choose_move ::
    "rng \<Rightarrow> nat \<Rightarrow> game_state \<Rightarrow> (py_error + (game_state \<times> nat)) option" where
  "choose_move rnd k s =
     (case simulations 1000 rnd k [Node s None] of
        None \<Rightarrow> None
      | Some (Inl e) \<Rightarrow> Some (Inl e)
      | Some (Inr (h, k')) \<Rightarrow>
          Some (and_then (best_child h 0 (141 / 100)) (\<lambda>c. Inr (state (h ! c), k'))))"

subsection \<open>Proof notions for the search tree\<close>

text \<open>The shape every store built by \<open>choose_move\<close> has between two simulations: the root
  is parentless, every other node has its parent before it and has been visited, and
  every child reference points forward into the store.\<close>

definition tree_shape :: "node list \<Rightarrow> bool" where
  "tree_shape h =
     (h \<noteq> [] \<and> parent (h ! 0) = None \<and>
      (\<forall>i < length h. 0 \<le> visits (h ! i) \<and>
         (0 < i \<longrightarrow> (\<exists>p < i. parent (h ! i) = Some p)) \<and>
         (\<forall>c \<in> set (children (h ! i)). i < c \<and> c < length h)))"

definition visited :: "node list \<Rightarrow> nat \<Rightarrow> bool" where
  "visited h n = (\<forall>i < length h. 0 < i \<and> i \<noteq> n \<longrightarrow> 1 \<le> visits (h ! i))"

text \<open>A state whose cards can be evaluated, and the stores whose states are of this kind
  and, below the root, terminal.\<close>

definition state_ok :: "game_state \<Rightarrow> bool" where
  "state_ok s = (hand s @ community_cards s \<noteq> [] \<and> valid_cards (hand s @ community_cards s))"

definition good_states :: "node list \<Rightarrow> bool" where
  "good_states h =
     (\<forall>i < length h. state_ok (state (h ! i)) \<and> (0 < i \<longrightarrow> is_terminal (state (h ! i))))"

text \<open>A store on which the visit count of a node and that of its parent give different
  choices: the root with 1000 visits, node 1 below it with 6 visits, and the two children
  of node 1.\<close>

definition example_tree :: "node list" where
  "example_tree =
     [\<lparr>state = PokerGameState [] [] 0 False 0, parent = None, children = [1],
        wins = 0, visits = 1000\<rparr>,
      \<lparr>state = PokerGameState [] [] 0 True 0, parent = Some 0, children = [2, 3],
        wins = 1, visits = 6\<rparr>,
      \<lparr>state = PokerGameState [] [] 0 True 0, parent = Some 1, children = [],
        wins = 2, visits = 4\<rparr>,
      \<lparr>state = PokerGameState [] [] 0 True 0, parent = Some 1, children = [],
        wins = - 1, visits = 1\<rparr>]"

section \<open>Properties of the hand evaluator\<close>

lemma count_list_count_mset: "count_list xs x = count (mset xs) x"
  by (induction xs) auto

lemma count_list_distinct: "distinct xs \<Longrightarrow> x \<in> set xs \<Longrightarrow> count_list xs x = 1"
  by (induction xs) auto

lemma counter_add_map:
  "distinct ks \<Longrightarrow>
   counter_add x (map (\<lambda>k. (k, c k)) ks) =
     (if x \<in> set ks then map (\<lambda>k. (k, if k = x then Suc (c k) else c k)) ks
      else map (\<lambda>k. (k, c k)) ks @ [(x, 1)])"
  by (induction ks) auto

lemma Counter_snoc: "Counter (xs @ [x]) = counter_add x (Counter xs)"
  by (simp add: Counter_def)

lemma Counter_eq:
  "Counter xs = map (\<lambda>k. (k, count_list xs k)) (rev (remdups (rev xs)))"
proof (induction xs rule: rev_induct)
  case Nil
  show ?case by (simp add: Counter_def)
next
  case (snoc x xs)
  have d: "distinct (rev (remdups (rev xs)))" by simp
  show ?case
    unfolding Counter_snoc snoc.IH counter_add_map [OF d]
    by (auto simp: count_list_append)
qed

lemma counter_values_eq:
  "counter_values xs = map (count_list xs) (rev (remdups (rev xs)))"
  by (simp add: counter_values_def Counter_eq comp_def)

lemma set_counter_values: "set (counter_values xs) = count_list xs ` set xs"
  by (simp add: counter_values_eq)

lemma mset_counter_values:
  "mset (counter_values xs) = image_mset (count (mset xs)) (mset_set (set xs))"
proof -
  have "mset (remdups (rev xs)) = mset_set (set xs)"
    by (metis distinct_remdups mset_set_set set_remdups set_rev)
  moreover have "count_list xs = count (mset xs)"
    by (simp add: fun_eq_iff count_list_count_mset)
  ultimately show ?thesis
    by (simp add: counter_values_eq)
qed

lemma counter_values_perm:
  "mset xs = mset ys \<Longrightarrow> mset (counter_values xs) = mset (counter_values ys)"
  by (simp add: mset_counter_values) (metis set_mset_mset)

lemma counter_values_distinct:
  "distinct xs \<Longrightarrow> set (counter_values xs) \<subseteq> {1}"
  by (auto simp: set_counter_values count_list_distinct)

lemma index_of_Inl: "index_of xs x = Inl e \<longleftrightarrow> x \<notin> set xs \<and> e = ValueError"
  by (induction xs) (auto split: sum.splits)

lemma index_of_mem: "x \<in> set xs \<Longrightarrow> \<exists>n. index_of xs x = Inr n"
  by (cases "index_of xs x") (auto simp: index_of_Inl)

lemma rank_index_valid: "rank c \<in> set ranks \<Longrightarrow> rank_index c = Inr (ridx c)"
  using index_of_mem [of "rank c" ranks] by (auto simp: ridx_def rank_index_def)

lemma index_of_Inr_mem: "index_of xs x = Inr n \<Longrightarrow> x \<in> set xs"
  by (induction xs arbitrary: n) (auto split: if_splits sum.splits)

lemma rank_index_invalid: "rank c \<notin> set ranks \<Longrightarrow> rank_index c = Inl ValueError"
  by (cases "rank_index c") (auto simp: rank_index_def index_of_Inl dest: index_of_Inr_mem)

lemma rank_index_eq:
  "rank_index c = (if rank c \<in> set ranks then Inr (ridx c) else Inl ValueError)"
  by (simp add: rank_index_valid rank_index_invalid)

lemma map_err_rank_index:
  "map_err rank_index cards = (if valid_cards cards then Inr (map ridx cards) else Inl ValueError)"
  by (induction cards) (simp_all add: valid_cards_def rank_index_eq)

lemma ridx_cong: "rank c = rank d \<Longrightarrow> ridx c = ridx d"
  by (simp add: ridx_def rank_index_def)

lemma valid_cards_perm: "mset xs = mset ys \<Longrightarrow> valid_cards xs = valid_cards ys"
  by (auto simp: valid_cards_def list_all_iff dest: mset_eq_setD)

lemma py_min_sort: "ks \<noteq> [] \<Longrightarrow> py_min (sort ks) = Inr (Min (set ks))"
proof -
  assume "ks \<noteq> []"
  then have "sort ks \<noteq> []" by (metis length_0_conv length_sort)
  then obtain x ys where e: "sort ks = x # ys" by (cases "sort ks") auto
  have "Min (set ks) = Min (set (sort ks))" by simp
  also have "\<dots> = fold min ys x" unfolding e by (rule Min.set_eq_fold)
  finally show ?thesis by (simp add: py_min_def e)
qed

lemma is_straight_eq:
  "is_straight cards =
     (if \<not> valid_cards cards \<or> cards = [] then Inl ValueError
      else Inr (sort (map ridx cards) = [Min (ridx ` set cards) ..< Min (ridx ` set cards) + 5]
                \<or> sort (map ridx cards) = [0, 1, 2, 3, 12]))"
proof (cases "valid_cards cards \<and> cards \<noteq> []")
  case True
  then have "py_min (sort (map ridx cards)) = Inr (Min (ridx ` set cards))"
    using py_min_sort [of "map ridx cards"] by simp
  with True show ?thesis
    by (simp add: is_straight_def map_err_rank_index and_then_def Let_def)
next
  case False
  then show ?thesis
    by (auto simp: is_straight_def map_err_rank_index and_then_def py_min_def Let_def)
qed

lemma is_straight6_eq:
  "is_straight6 cards =
     (if \<not> valid_cards cards then Inl ValueError
      else if cards = [] then Inl IndexError
      else Inr (sort (map ridx cards) = [Min (ridx ` set cards) ..< Min (ridx ` set cards) + 5]
                \<or> sort (map ridx cards) = [0, 1, 2, 3, 12]))"
proof (cases "valid_cards cards \<and> cards \<noteq> []")
  case True
  then have n: "sort (map ridx cards) \<noteq> []" by (metis length_0_conv length_sort length_map)
  then obtain x ys where e: "sort (map ridx cards) = x # ys" by (cases "sort (map ridx cards)") auto
  have "py_min (sort (map ridx cards)) = Inr (Min (ridx ` set cards))"
    using True py_min_sort [of "map ridx cards"] by simp
  moreover have "sorted (x # ys)" using sorted_sort [of "map ridx cards"] unfolding e .
  then have "fold min ys x = x"
    by (metis Min.set_eq_fold Min_insert2 list.simps(15) sorted_simps(2) List.finite_set Min_eqI insertCI order_refl set_ConsD)
  ultimately have "x = Min (ridx ` set cards)" by (simp add: py_min_def e)
  with True e show ?thesis
    by (auto simp: is_straight6_def map_err_rank_index and_then_def Let_def)
next
  case False
  then show ?thesis
    by (auto simp: is_straight6_def map_err_rank_index and_then_def Let_def)
qed

lemma sorted_reverse_rank_index:
  "sorted_reverse rank_index cards =
     (if valid_cards cards then Inr (desc_sort cards) else Inl ValueError)"
  by (simp add: sorted_reverse_def map_err_rank_index desc_sort_def)

lemma mset_desc_sort: "mset (desc_sort cards) = mset cards"
proof -
  have "map snd (zip (map ridx cards) cards) = cards"
    by (rule map_snd_zip) simp
  then have "mset cards = image_mset snd (mset (zip (map ridx cards) cards))"
    by (metis mset_map)
  then show ?thesis
    by (simp add: desc_sort_def)
qed

lemma sort_perm: "mset xs = mset ys \<Longrightarrow> sort xs = sort ys"
  for xs :: "nat list"
  by (rule properties_for_sort) simp_all

lemma map_ridx_desc_sort: "map ridx (desc_sort cards) = rev (sort (map ridx cards))"
proof -
  let ?L = "rev (zip (map ridx cards) cards)"
  let ?S = "sort_key fst ?L"
  have "\<forall>p \<in> set ?S. ridx (snd p) = fst p"
    by (auto simp: in_set_zip)
  then have a: "map (\<lambda>p. ridx (snd p)) ?S = map fst ?S"
    by simp
  have b: "sort (map fst ?L) = map fst ?S"
    by (rule properties_for_sort) (simp_all add: sorted_sort_key)
  have "map fst (zip (map ridx cards) cards) = map ridx cards"
    by (rule map_fst_zip) simp
  then have c: "map fst ?L = rev (map ridx cards)"
    by (simp add: rev_map [symmetric])
  have d: "sort (rev (map ridx cards)) = sort (map ridx cards)"
    by (rule sort_perm) simp
  have "map ridx (desc_sort cards) = rev (map (\<lambda>p. ridx (snd p)) ?S)"
    by (simp add: desc_sort_def rev_map comp_def)
  also have "\<dots> = rev (sort (map ridx cards))"
    unfolding a b [symmetric] c d ..
  finally show ?thesis .
qed

lemma desc_sort_Nil: "desc_sort cards = [] \<longleftrightarrow> cards = []"
  by (metis mset_desc_sort mset_zero_iff)

lemma valid_desc_sort: "valid_cards (desc_sort cards) = valid_cards cards"
  by (rule valid_cards_perm) (rule mset_desc_sort)

lemma is_straight_perm: "mset cs = mset ds \<Longrightarrow> is_straight cs = is_straight ds"
proof -
  assume a: "mset cs = mset ds"
  then have "mset (map ridx cs) = mset (map ridx ds)" by simp
  then have "sort (map ridx cs) = sort (map ridx ds)" by (rule sort_perm)
  moreover have "set cs = set ds" using a by (rule mset_eq_setD)
  moreover have "cs = [] \<longleftrightarrow> ds = []" using a by (metis mset_zero_iff)
  moreover have "valid_cards cs = valid_cards ds" using a by (rule valid_cards_perm)
  ultimately show ?thesis by (simp add: is_straight_eq)
qed

lemma is_flush_perm: "mset cs = mset ds \<Longrightarrow> is_flush cs = is_flush ds"
  by (simp add: is_flush_def) (metis mset_eq_setD)

lemma rank_values_perm:
  "mset cs = mset ds \<Longrightarrow>
   mset (counter_values (map rank cs)) = mset (counter_values (map rank ds))"
  by (rule counter_values_perm) simp

lemma rank_values_set_perm:
  "mset cs = mset ds \<Longrightarrow>
   set (counter_values (map rank cs)) = set (counter_values (map rank ds))"
  by (drule rank_values_perm) (rule mset_eq_setD)

lemma rank_values_count_perm:
  "mset cs = mset ds \<Longrightarrow>
   count_list (counter_values (map rank cs)) n = count_list (counter_values (map rank ds)) n"
  by (drule rank_values_perm) (simp add: count_list_count_mset)

lemma evaluate_hand_perm:
  assumes "mset cs = mset ds"
  shows "evaluate_hand cs = evaluate_hand ds"
proof -
  have s: "is_straight cs = is_straight ds" using assms by (rule is_straight_perm)
  have f: "is_flush cs = is_flush ds" using assms by (rule is_flush_perm)
  have v: "set (counter_values (map rank cs)) = set (counter_values (map rank ds))"
    using assms by (rule rank_values_set_perm)
  have c: "count_list (counter_values (map rank cs)) 2 = count_list (counter_values (map rank ds)) 2"
    using assms by (rule rank_values_count_perm)
  show ?thesis
    unfolding evaluate_hand_def is_straight_flush_def is_four_of_a_kind_def
      is_full_house_def is_three_of_a_kind_def is_two_pair_def is_one_pair_def Let_def s f v c ..
qed

lemma hand_rank_eq:
  "hand_rank cards = (if valid_cards cards then evaluate_hand cards else Inl ValueError)"
proof (cases "valid_cards cards")
  case True
  have "evaluate_hand (desc_sort cards) = evaluate_hand cards"
    by (rule evaluate_hand_perm) (rule mset_desc_sort)
  with True show ?thesis
    by (simp add: hand_rank_def PokerHand_def sorted_reverse_rank_index and_then_def split: sum.splits)
next
  case False
  then show ?thesis
    by (simp add: hand_rank_def PokerHand_def sorted_reverse_rank_index and_then_def)
qed

lemma is_straight6_nonempty: "cards \<noteq> [] \<Longrightarrow> is_straight6 cards = is_straight cards"
  by (simp add: is_straight6_eq is_straight_eq)

lemma evaluate_hand6_nonempty:
  "cards \<noteq> [] \<Longrightarrow>
   evaluate_hand6 cards = and_then (evaluate_hand cards) (\<lambda>cat. Inr (cat, rank (hd cards)))"
  by (cases cards)
     (simp_all add: evaluate_hand6_def evaluate_hand_def is_straight_flush6_def
       is_straight_flush_def is_straight6_nonempty cards0_rank_def and_then_def
       split: sum.splits)

lemma hand_rank6_eq:
  "hand_rank6 cards =
     (if \<not> valid_cards cards then Inl ValueError
      else if cards = [] then Inl IndexError
      else and_then (evaluate_hand cards) (\<lambda>cat. Inr (cat, rank (hd (desc_sort cards)))))"
proof (cases "valid_cards cards \<and> cards \<noteq> []")
  case True
  then have n: "desc_sort cards \<noteq> []" by (simp add: desc_sort_Nil)
  have "evaluate_hand (desc_sort cards) = evaluate_hand cards"
    by (rule evaluate_hand_perm) (rule mset_desc_sort)
  with True show ?thesis
    by (simp add: hand_rank6_def PokerHand6_def sorted_reverse_rank_index
        evaluate_hand6_nonempty [OF n] and_then_def split: sum.splits)
next
  case False
  then show ?thesis
    by (auto simp: hand_rank6_def PokerHand6_def sorted_reverse_rank_index and_then_def
        desc_sort_def evaluate_hand6_def is_straight_flush6_def is_straight6_eq valid_cards_def)
qed

lemma sort_range:
  fixes ks :: "nat list"
  assumes "length ks = n" "set ks = {m ..< m + n}"
  shows "sort ks = [m ..< m + n]"
proof -
  have "card (set ks) = length ks" using assms by simp
  then have "distinct ks" by (rule card_distinct)
  then have "sort ks = sorted_list_of_set (set ks)"
    by (simp add: sorted_list_of_set_sort_remdups distinct_remdups_id)
  then show ?thesis using assms by simp
qed

lemma distinct_ranks_of_ridx: "distinct (map ridx cards) \<Longrightarrow> distinct (map rank cards)"
  by (induction cards) (auto dest: ridx_cong)

lemma no_groups:
  assumes "distinct (map rank cards)"
  shows "\<not> is_four_of_a_kind cards" "\<not> is_full_house cards" "\<not> is_three_of_a_kind cards"
    "\<not> is_one_pair cards"
  using counter_values_distinct [OF assms]
  by (auto simp: is_four_of_a_kind_def is_full_house_def is_three_of_a_kind_def
      is_one_pair_def Let_def)

lemma sorted_last_ge:
  fixes xs :: "nat list"
  shows "sorted xs \<Longrightarrow> x \<in> set xs \<Longrightarrow> x \<le> last xs"
  by (induction xs) auto

lemma last_sort_Max:
  fixes ks :: "nat list"
  assumes "ks \<noteq> []"
  shows "last (sort ks) = Max (set ks)"
proof -
  have n: "sort ks \<noteq> []" using assms by (metis length_0_conv length_sort)
  have "last (sort ks) \<in> set (sort ks)" using n by (rule last_in_set)
  moreover have "\<And>y. y \<in> set (sort ks) \<Longrightarrow> y \<le> last (sort ks)"
    by (rule sorted_last_ge) simp_all
  ultimately have "Max (set (sort ks)) = last (sort ks)"
    by (intro Max_eqI) simp_all
  then show ?thesis by simp
qed

lemma index_of_nth: "index_of xs x = Inr n \<Longrightarrow> n < length xs \<and> xs ! n = x"
  by (induction xs arbitrary: n) (auto split: if_splits sum.splits)

lemma primary_rank:
  assumes "valid_cards cards" "cards \<noteq> []"
  shows "rank (hd (desc_sort cards)) \<in> rank ` set cards"
    and "index_of ranks (rank (hd (desc_sort cards))) = Inr (Max (ridx ` set cards))"
proof -
  let ?c = "hd (desc_sort cards)"
  have n: "desc_sort cards \<noteq> []" using assms by (simp add: desc_sort_Nil)
  then have m: "?c \<in> set (desc_sort cards)" by simp
  then have "?c \<in># mset (desc_sort cards)" by simp
  then have c: "?c \<in> set cards" unfolding mset_desc_sort by simp
  then show "rank ?c \<in> rank ` set cards" by simp
  have "ridx ?c = hd (map ridx (desc_sort cards))" using n by (simp add: hd_map)
  also have "\<dots> = last (sort (map ridx cards))"
    unfolding map_ridx_desc_sort using assms
    by (metis hd_rev)
  also have "\<dots> = Max (ridx ` set cards)"
    using assms last_sort_Max [of "map ridx cards"] by simp
  finally have "ridx ?c = Max (ridx ` set cards)" .
  moreover have "rank ?c \<in> set ranks"
    using assms c by (simp add: valid_cards_def list_all_iff)
  ultimately show "index_of ranks (rank ?c) = Inr (Max (ridx ` set cards))"
    using rank_index_valid [of ?c] by (simp add: rank_index_def)
qed

lemma straight_core:
  assumes "valid_cards cs" "length cs = 5" "set (map ridx cs) = {m ..< m + 5}"
  shows "evaluate_hand cs = Inr (if is_flush cs then ''Straight Flush'' else ''Straight'')"
proof -
  have n: "cs \<noteq> []" using assms by auto
  have s: "sort (map ridx cs) = [m ..< m + 5]"
    using assms by (intro sort_range) simp_all
  have "Min {m ..< m + 5} = m" by (rule Min_eqI) simp_all
  then have "Min (ridx ` set cs) = m" using assms by simp
  then have st: "is_straight cs = Inr True"
    using assms n s by (simp add: is_straight_eq)
  have "distinct (map ridx cs)"
    using assms by (intro card_distinct) simp
  then have d: "distinct (map rank cs)" by (rule distinct_ranks_of_ridx)
  show ?thesis
    using no_groups [OF d] st
    by (simp add: evaluate_hand_def is_straight_flush_def and_then_def)
qed

lemma map_err_rank_index_Inr:
  "map_err rank_index cards = Inr ks \<longleftrightarrow> valid_cards cards \<and> ks = map ridx cards"
  by (auto simp: map_err_rank_index)

lemma valid_cards_iff: "valid_cards cs \<longleftrightarrow> set (map rank cs) \<subseteq> set ranks"
  by (auto simp: valid_cards_def list_all_iff)

lemma valid_cards_ranks: "map rank cs = map rank ds \<Longrightarrow> valid_cards cs = valid_cards ds"
  unfolding valid_cards_iff by simp

lemma map_ridx_eq:
  "map ridx cs = map (\<lambda>r. case index_of ranks r of Inl _ \<Rightarrow> 0 | Inr n \<Rightarrow> n) (map rank cs)"
  by (simp add: ridx_def rank_index_def)

lemma map_ridx_ranks: "map rank cs = map rank ds \<Longrightarrow> map ridx cs = map ridx ds"
  unfolding map_ridx_eq by simp

lemma map_rank_suit_update:
  "map rank (cards[i := (cards ! i)\<lparr>suit := s'\<rparr>]) = map rank cards"
  by (cases "i < length cards") (simp_all add: map_update list_update_same_conv list_update_beyond)

lemma not_flush_after_change:
  assumes "set (map suit cards) = {s}" "1 < length cards" "i < length cards" "s' \<noteq> s"
  shows "\<not> is_flush (cards[i := (cards ! i)\<lparr>suit := s'\<rparr>])"
proof -
  let ?cs = "cards[i := (cards ! i)\<lparr>suit := s'\<rparr>]"
  define j where "j = (if i = 0 then 1 else (0::nat))"
  have j: "j < length cards" "j \<noteq> i"
    using assms(2) by (auto simp: j_def)
  have "(cards ! i)\<lparr>suit := s'\<rparr> \<in> set ?cs"
    using assms(3) by (rule set_update_memI)
  then have "suit ((cards ! i)\<lparr>suit := s'\<rparr>) \<in> suit ` set ?cs"
    by (rule imageI)
  then have a: "s' \<in> set (map suit ?cs)" by simp
  have "cards ! j \<in> set cards" using j(1) by (rule nth_mem)
  then have "suit (cards ! j) \<in> set (map suit cards)" by simp
  then have sj: "suit (cards ! j) = s" unfolding assms(1) by simp
  have "?cs ! j = cards ! j" using j by simp
  moreover have "?cs ! j \<in> set ?cs" using j(1) by (intro nth_mem) simp
  ultimately have "cards ! j \<in> set ?cs" by simp
  then have "suit (cards ! j) \<in> suit ` set ?cs" by (rule imageI)
  then have b: "s \<in> set (map suit ?cs)" using sj by simp
  have "card (set (map suit ?cs)) \<noteq> 1"
  proof
    assume "card (set (map suit ?cs)) = 1"
    then obtain x where "set (map suit ?cs) = {x}" by (auto simp: card_1_singleton_iff)
    with a b assms(4) show False by auto
  qed
  then show ?thesis by (simp add: is_flush_def)
qed

lemma evaluate_hand_total:
  assumes "cards \<noteq> []" "valid_cards cards"
  shows "\<exists>cat. evaluate_hand cards = Inr cat \<and>
    cat \<in> set hand_categories"
proof -
  obtain b where "is_straight cards = Inr b"
    using assms by (simp add: is_straight_eq)
  then show ?thesis
    by (simp add: evaluate_hand_def is_straight_flush_def and_then_def hand_categories_def)
qed

section \<open>Properties of the deck and of the game state\<close>

lemma shuffle_from_perm:
  "i < length xs \<Longrightarrow> mset (fst (shuffle_from rnd k i xs)) = mset xs"
proof (induction i arbitrary: k xs)
  case 0
  then show ?case by simp
next
  case (Suc i)
  let ?j = "rnd k mod (Suc i + 1)"
  let ?ys = "xs[Suc i := xs ! ?j, ?j := xs ! Suc i]"
  have "?j < Suc i + 1" by (rule mod_less_divisor) simp
  then have j: "?j < length xs" using Suc.prems by linarith
  have "mset ?ys = mset xs" using j Suc.prems by (rule mset_swap)
  moreover have "i < length ?ys" using Suc.prems by simp
  ultimately show ?case using Suc.IH [of ?ys "Suc k"] by (simp add: Let_def)
qed

lemma shuffle_perm: "mset (fst (shuffle rnd k xs)) = mset xs"
proof (cases xs)
  case Nil
  then show ?thesis by (simp add: shuffle_def)
next
  case (Cons x ys)
  then show ?thesis unfolding shuffle_def by (intro shuffle_from_perm) simp
qed

lemma shuffle_from_counter: "snd (shuffle_from rnd k i xs) = k + i"
  by (induction i arbitrary: k xs) (simp_all add: Let_def)

lemma length_deck_cards: "length deck_cards = 52"
  by (simp add: deck_cards_def ranks_def suits_def)

lemma distinct_deck_cards: "distinct deck_cards"
  by code_simp

lemma set_deck_cards: "set deck_cards = (\<lambda>(r, s). Card r s) ` (set ranks \<times> set suits)"
  by (auto simp: deck_cards_def)

lemma mset_Deck: "mset (fst (Deck rnd k)) = mset deck_cards"
  by (simp add: Deck_def shuffle_perm)

lemma length_Deck: "length (fst (Deck rnd k)) = 52"
  using mset_eq_length [OF mset_Deck] by (simp add: length_deck_cards)

lemma draw_cards_all: "draw_cards (length d) d = Inr (rev d, [])"
  by (induction d rule: rev_induct) (simp_all add: draw_card_def)

lemma draw_card_empty: "draw_card [] = Inl IndexError"
  by (simp add: draw_card_def)

lemma draw_cards_too_many: "draw_cards (Suc (length d)) d = Inl IndexError"
  by (induction d rule: rev_induct) (simp_all add: draw_card_def)

lemma deal_ok: "\<exists>cs k'. deal rnd k n = Inr (cs, k') \<and> length cs = n"
proof (induction n arbitrary: k)
  case 0
  show ?case by simp
next
  case (Suc n)
  obtain d k1 where d: "Deck rnd k = (d, k1)" by (cases "Deck rnd k")
  have "length (fst (Deck rnd k)) = 52" by (rule length_Deck)
  then have "d \<noteq> []" using d by auto
  then have c: "draw_card d = Inr (last d, butlast d)" by (simp add: draw_card_def)
  obtain cs k' where "deal rnd k1 n = Inr (cs, k')" "length cs = n"
    using Suc.IH [of k1] by blast
  then show ?case using d c by simp
qed

lemma legal_moves_lt5:
  assumes "length (community_cards s) < 5"
  shows "\<exists>new_cards k'.
      length (community_cards s @ new_cards) = 5 \<and>
      legal_moves rnd k s = Inr (
        [PokerGameState (hand s) (community_cards s) (pot s) True 0,
         PokerGameState (hand s) (community_cards s @ new_cards) (pot s + current_bet s) False 0,
         PokerGameState (hand s) (community_cards s @ new_cards) (pot s + current_bet s + 10) False 0,
         PokerGameState (hand s) (community_cards s @ new_cards) (pot s + current_bet s + 20) False 0,
         PokerGameState (hand s) (community_cards s @ new_cards) (pot s + current_bet s + 50) False 0],
        k')"
proof -
  obtain cs k' where d: "deal rnd k (5 - length (community_cards s)) = Inr (cs, k')"
    and l: "length cs = 5 - length (community_cards s)"
    using deal_ok by blast
  have "length (community_cards s @ cs) = 5" using assms l by simp
  moreover have "legal_moves rnd k s = Inr (
        [PokerGameState (hand s) (community_cards s) (pot s) True 0,
         PokerGameState (hand s) (community_cards s @ cs) (pot s + current_bet s) False 0,
         PokerGameState (hand s) (community_cards s @ cs) (pot s + current_bet s + 10) False 0,
         PokerGameState (hand s) (community_cards s @ cs) (pot s + current_bet s + 20) False 0,
         PokerGameState (hand s) (community_cards s @ cs) (pot s + current_bet s + 50) False 0],
        k')"
    using assms d by (simp add: legal_moves_def and_then_def Let_def)
  ultimately show ?thesis by blast
qed

lemma legal_moves_ge5:
  assumes "\<not> length (community_cards s) < 5"
  shows "legal_moves rnd k s = Inr (
        [PokerGameState (hand s) (community_cards s) (pot s) True 0,
         PokerGameState (hand s) (community_cards s) (pot s + current_bet s) True 0], k)"
  using assms by (simp add: legal_moves_def Let_def)

lemma legal_moves_terminal:
  "\<exists>moves k'. legal_moves rnd k s = Inr (moves, k') \<and> moves \<noteq> [] \<and>
     (length moves = 5 \<or> length moves = 2) \<and>
     (length moves = 5 \<longleftrightarrow> length (community_cards s) < 5) \<and>
     list_all is_terminal moves"
proof (cases "length (community_cards s) < 5")
  case True
  from legal_moves_lt5 [OF True, of rnd k] obtain cs k' where
    "length (community_cards s @ cs) = 5" and
    "legal_moves rnd k s = Inr (
        [PokerGameState (hand s) (community_cards s) (pot s) True 0,
         PokerGameState (hand s) (community_cards s @ cs) (pot s + current_bet s) False 0,
         PokerGameState (hand s) (community_cards s @ cs) (pot s + current_bet s + 10) False 0,
         PokerGameState (hand s) (community_cards s @ cs) (pot s + current_bet s + 20) False 0,
         PokerGameState (hand s) (community_cards s @ cs) (pot s + current_bet s + 50) False 0],
        k')"
    by blast
  then show ?thesis using True
    by (simp add: is_terminal_def PokerGameState_def del: length_append)
next
  case False
  then show ?thesis
    by (simp add: legal_moves_ge5 is_terminal_def PokerGameState_def)
qed

lemma simulate_loop_terminal:
  "is_terminal s \<Longrightarrow> simulate_loop rnd k s = Some (Inr (s, k))"
  by (subst simulate_loop.simps) simp

lemma simulate_loop_one:
  assumes "\<not> is_terminal s"
  shows "\<exists>moves k'. legal_moves rnd k s = Inr (moves, k') \<and>
     rnd k' mod length moves < length moves \<and>
     simulate_loop rnd k s = Some (Inr (moves ! (rnd k' mod length moves), Suc k'))"
proof -
  obtain moves k' where m: "legal_moves rnd k s = Inr (moves, k')" "moves \<noteq> []"
    "list_all is_terminal moves"
    using legal_moves_terminal [of rnd k s] by blast
  let ?s' = "moves ! (rnd k' mod length moves)"
  have i: "rnd k' mod length moves < length moves" using m(2) by simp
  then have "?s' \<in> set moves" by (rule nth_mem)
  then have t: "is_terminal ?s'" using m(3) by (simp add: list_all_iff)
  have "simulate_loop rnd k s = simulate_loop rnd (Suc k') ?s'"
    using assms m by (subst simulate_loop.simps) (simp add: choice_def)
  then show ?thesis using m(1) i simulate_loop_terminal [OF t] by simp
qed

lemma game_result_eq:
  "game_result s =
     and_then (hand_rank (hand s @ community_cards s)) (\<lambda>cat.
       if cat \<in> set winning_hands then Inr 1 else Inr (- 1))"
  by (cases "PokerHand (hand s @ community_cards s)")
     (simp_all add: game_result_def hand_rank_def and_then_def)

lemma hand_rank_error: "hand_rank cards = Inl e \<Longrightarrow> e = ValueError"
  by (cases "is_straight cards")
     (auto simp: hand_rank_eq evaluate_hand_def is_straight_flush_def and_then_def
        is_straight_eq split: if_splits)

lemma game_result_error: "game_result s = Inl e \<Longrightarrow> e = ValueError"
  unfolding game_result_eq
  by (cases "hand_rank (hand s @ community_cards s)")
     (auto simp: and_then_def dest: hand_rank_error split: if_splits)


section \<open>Properties of the search tree\<close>

lemma fully_expanded_total: "\<exists>b k'. fully_expanded rnd k h n = Inr (b, k')"
proof -
  obtain moves k' where "legal_moves rnd k (state (h ! n)) = Inr (moves, k')"
    using legal_moves_terminal [of rnd k "state (h ! n)"] by blast
  then show ?thesis by (simp add: fully_expanded_def and_then_def)
qed

lemma max_from_Inr: "max_from f b kb xs = Inr c \<Longrightarrow> c = b \<or> c \<in> set xs"
  by (induction xs arbitrary: b kb) (auto split: sum.splits if_splits)

lemma max_from_Inl: "max_from f b kb xs = Inl e \<Longrightarrow> \<exists>x \<in> set xs. f x = Inl e"
  by (induction xs arbitrary: b kb) (auto split: sum.splits if_splits)

lemma py_max_Inr: "py_max f xs = Inr c \<Longrightarrow> c \<in> set xs"
  by (cases xs) (auto simp: py_max_def split: sum.splits dest: max_from_Inr)

lemma py_max_Inl:
  "py_max f xs = Inl e \<Longrightarrow> (xs = [] \<and> e = ValueError) \<or> (\<exists>x \<in> set xs. f x = Inl e)"
  by (cases xs) (auto simp: py_max_def split: sum.splits dest: max_from_Inl)

lemma exploit_key_zero: "exploit_key x = Inl ZeroDivisionError \<Longrightarrow> visits x = 0"
  by (simp add: exploit_key_def py_div_def split: if_splits)

lemma ucb1_key_zero: "ucb1_key w p x = Inl ZeroDivisionError \<Longrightarrow> visits x = 0"
  by (auto simp: ucb1_key_def py_div_def py_log_def py_sqrt_def and_then_def split: if_splits)

lemma tree_shape_children:
  "tree_shape h \<Longrightarrow> n < length h \<Longrightarrow> c \<in> set (children (h ! n)) \<Longrightarrow> n < c \<and> c < length h"
  unfolding tree_shape_def by blast

lemma tree_shape_parent:
  "tree_shape h \<Longrightarrow> i < length h \<Longrightarrow> 0 < i \<Longrightarrow> \<exists>p < i. parent (h ! i) = Some p"
  unfolding tree_shape_def by blast

lemma tree_shape_root: "tree_shape h \<Longrightarrow> h \<noteq> [] \<and> parent (h ! 0) = None"
  unfolding tree_shape_def by blast

lemma tree_shape_visits: "tree_shape h \<Longrightarrow> i < length h \<Longrightarrow> 0 \<le> visits (h ! i)"
  unfolding tree_shape_def by blast

lemma visited_nth:
  "visited h n \<Longrightarrow> i < length h \<Longrightarrow> 0 < i \<Longrightarrow> i \<noteq> n \<Longrightarrow> 1 \<le> visits (h ! i)"
  unfolding visited_def by blast

lemma best_child_ok:
  assumes "tree_shape h" "visited h 0" "n < length h"
  shows "best_child h n w \<noteq> Inl ZeroDivisionError"
    and "best_child h n w = Inr c \<Longrightarrow> n < c \<and> c < length h"
proof -
  have ch: "n < x \<and> x < length h" if "x \<in> set (children (h ! n))" for x
    using assms(1,3) that by (rule tree_shape_children)
  have v: "visits (h ! x) \<noteq> 0" if "x \<in> set (children (h ! n))" for x
  proof -
    have "n < x \<and> x < length h" using that by (rule ch)
    then have "1 \<le> visits (h ! x)" using assms(2) by (intro visited_nth [of h 0]) simp_all
    then show ?thesis by simp
  qed
  show "best_child h n w \<noteq> Inl ZeroDivisionError"
  proof
    assume a: "best_child h n w = Inl ZeroDivisionError"
    show False
    proof (cases "parent (h ! n)")
      case None
      with a have "py_max (\<lambda>x. exploit_key (h ! x)) (children (h ! n)) = Inl ZeroDivisionError"
        by (simp add: best_child_def)
      then obtain x where "x \<in> set (children (h ! n))" "exploit_key (h ! x) = Inl ZeroDivisionError"
        by (auto dest: py_max_Inl)
      then show False using v exploit_key_zero by blast
    next
      case (Some p)
      with a have "py_max (\<lambda>x. ucb1_key w (h ! p) (h ! x)) (children (h ! n)) = Inl ZeroDivisionError"
        by (simp add: best_child_def)
      then obtain x where "x \<in> set (children (h ! n))" "ucb1_key w (h ! p) (h ! x) = Inl ZeroDivisionError"
        by (auto dest: py_max_Inl)
      then show False using v ucb1_key_zero by blast
    qed
  qed
  show "n < c \<and> c < length h" if "best_child h n w = Inr c"
  proof -
    have "c \<in> set (children (h ! n))"
      using that by (cases "parent (h ! n)") (auto simp: best_child_def dest: py_max_Inr)
    then show ?thesis by (rule ch)
  qed
qed

lemma select_ok:
  assumes "tree_shape h" "visited h 0"
  shows "n < length h \<Longrightarrow>
    \<exists>r. select rnd k h n = Some r \<and> r \<noteq> Inl ZeroDivisionError \<and>
         (\<forall>m k'. r = Inr (m, k') \<longrightarrow> m < length h)"
proof (induction "length h - n" arbitrary: n k rule: less_induct)
  case less
  obtain b k' where fe: "fully_expanded rnd k h n = Inr (b, k')"
    using fully_expanded_total by blast
  show ?case
  proof (cases "b \<and> \<not> is_terminal (state (h ! n))")
    case False
    then have "select rnd k h n = Some (Inr (n, k'))"
      using fe by (subst select.simps) auto
    then show ?thesis using less.prems by simp
  next
    case True
    show ?thesis
    proof (cases "best_child h n (141 / 100)")
      case (Inl e)
      then have "select rnd k h n = Some (Inl e)"
        using fe True by (subst select.simps) simp
      moreover have "e \<noteq> ZeroDivisionError"
        using best_child_ok(1) [OF assms less.prems, of "141 / 100"] Inl by auto
      ultimately show ?thesis by simp
    next
      case (Inr c)
      then have s: "select rnd k h n = select rnd k' h c"
        using fe True by (subst select.simps) simp
      have c: "n < c \<and> c < length h"
        using best_child_ok(2) [OF assms less.prems Inr] .
      then have "length h - c < length h - n" by linarith
      then show ?thesis using less.hyps [of c k'] c s by simp
    qed
  qed
qed

lemma update_props:
  assumes "n < length h"
  shows "length (update h n r) = length h"
    and "\<And>i. i < length h \<Longrightarrow> parent (update h n r ! i) = parent (h ! i)"
    and "\<And>i. i < length h \<Longrightarrow> children (update h n r ! i) = children (h ! i)"
    and "\<And>i. i < length h \<Longrightarrow> state (update h n r ! i) = state (h ! i)"
    and "\<And>i. i < length h \<Longrightarrow> visits (update h n r ! i) = (if i = n then visits (h ! i) + 1 else visits (h ! i))"
  using assms by (simp_all add: update_def Let_def nth_list_update)

lemma tree_shapeI:
  assumes "h \<noteq> []" "parent (h ! 0) = None"
    and "\<And>i. i < length h \<Longrightarrow> 0 \<le> visits (h ! i)"
    and "\<And>i. i < length h \<Longrightarrow> 0 < i \<Longrightarrow> \<exists>p < i. parent (h ! i) = Some p"
    and "\<And>i c. i < length h \<Longrightarrow> c \<in> set (children (h ! i)) \<Longrightarrow> i < c \<and> c < length h"
  shows "tree_shape h"
  unfolding tree_shape_def using assms by blast

lemma tree_shape_update:
  assumes "tree_shape h" "n < length h"
  shows "tree_shape (update h n r)"
proof (rule tree_shapeI)
  note u = update_props [OF assms(2), where r = r]
  have ne: "h \<noteq> []" and root: "parent (h ! 0) = None"
    using tree_shape_root [OF assms(1)] by simp_all
  show "update h n r \<noteq> []" using ne u(1) by (metis length_0_conv)
  show "parent (update h n r ! 0) = None" using ne root by (simp add: u(2))
  show "0 \<le> visits (update h n r ! i)" if "i < length (update h n r)" for i
    using that tree_shape_visits [OF assms(1), of i] by (auto simp: u(1) u(5))
  show "\<exists>p < i. parent (update h n r ! i) = Some p"
    if "i < length (update h n r)" "0 < i" for i
    using that tree_shape_parent [OF assms(1), of i] by (simp add: u(1) u(2))
  show "i < c \<and> c < length (update h n r)"
    if "i < length (update h n r)" "c \<in> set (children (update h n r ! i))" for i c
    using that tree_shape_children [OF assms(1), of i c] by (simp add: u(1) u(3))
qed

lemma backpropagate_ok:
  assumes "tree_shape h" "c < length h"
  shows "\<exists>h2. backpropagate h (Some c) r = Some h2 \<and> tree_shape h2 \<and>
     length h2 = length h \<and>
     (\<forall>i < length h. visits (h ! i) \<le> visits (h2 ! i) \<and> state (h2 ! i) = state (h ! i) \<and>
        children (h2 ! i) = children (h ! i)) \<and>
     visits (h ! c) < visits (h2 ! c)"
  using assms
proof (induction c arbitrary: h rule: less_induct)
  case (less c)
  let ?h' = "update h c r"
  note u = update_props [OF less.prems(2), where r = r]
  have t': "tree_shape ?h'" using less.prems by (rule tree_shape_update)
  have b: "backpropagate h (Some c) r = backpropagate ?h' (parent (h ! c)) r"
    using less.prems(2) by (subst backpropagate.simps) (simp add: Let_def u(2))
  show ?case
  proof (cases "c = 0")
    case True
    then have "parent (h ! c) = None" using tree_shape_root [OF less.prems(1)] by simp
    then have "backpropagate h (Some c) r = Some ?h'"
      unfolding b by (subst backpropagate.simps) simp
    then show ?thesis using t' less.prems(2) by (simp add: u)
  next
    case False
    then obtain p where p: "p < c" "parent (h ! c) = Some p"
      using tree_shape_parent [OF less.prems] by auto
    have pl: "p < length ?h'" using p(1) less.prems(2) by (simp add: u(1))
    from less.IH [OF p(1) t' pl] obtain h2 where h2:
      "backpropagate ?h' (Some p) r = Some h2" "tree_shape h2" "length h2 = length ?h'"
      "\<forall>i < length ?h'. visits (?h' ! i) \<le> visits (h2 ! i) \<and> state (h2 ! i) = state (?h' ! i) \<and>
        children (h2 ! i) = children (?h' ! i)"
      by blast
    have 1: "backpropagate h (Some c) r = Some h2" unfolding b p(2) by (rule h2(1))
    have 2: "length h2 = length h" using h2(3) by (simp add: u(1))
    have 3: "visits (h ! i) \<le> visits (h2 ! i) \<and> state (h2 ! i) = state (h ! i) \<and>
        children (h2 ! i) = children (h ! i)" if "i < length h" for i
    proof -
      have "visits (?h' ! i) \<le> visits (h2 ! i) \<and> state (h2 ! i) = state (?h' ! i) \<and>
        children (h2 ! i) = children (?h' ! i)"
        using h2(4) that by (simp add: u(1))
      moreover have "visits (h ! i) \<le> visits (?h' ! i)" using that by (simp add: u(5))
      ultimately show ?thesis using that by (simp add: u(3) u(4))
    qed
    have "visits (?h' ! c) \<le> visits (h2 ! c)"
      using h2(4) less.prems(2) by (simp add: u(1))
    then have 4: "visits (h ! c) < visits (h2 ! c)"
      using less.prems(2) by (simp add: u(5))
    from 1 h2(2) 2 3 4 show ?thesis by blast
  qed
qed

lemma add_child_props:
  assumes "n < length h"
  shows "snd (add_child h n s) = length h"
    and "length (fst (add_child h n s)) = Suc (length h)"
    and "fst (add_child h n s) ! length h = Node s (Some n)"
    and "fst (add_child h n s) ! n = (h ! n)\<lparr>children := children (h ! n) @ [length h]\<rparr>"
    and "\<And>i. i < length h \<Longrightarrow> i \<noteq> n \<Longrightarrow> fst (add_child h n s) ! i = h ! i"
  using assms by (simp_all add: add_child_def Let_def nth_append nth_list_update)

lemma add_child_fields:
  assumes "n < length h" "i < length h"
  shows "parent (fst (add_child h n s) ! i) = parent (h ! i)"
    and "visits (fst (add_child h n s) ! i) = visits (h ! i)"
    and "state (fst (add_child h n s) ! i) = state (h ! i)"
    and "set (children (fst (add_child h n s) ! i)) \<subseteq> insert (length h) (set (children (h ! i)))"
  using assms add_child_props(4,5) [OF assms(1), where s = s] 
  by (cases "i = n"; auto)+

lemma tree_shape_add_child:
  assumes "tree_shape h" "n < length h"
  shows "tree_shape (fst (add_child h n s))"
proof (rule tree_shapeI)
  let ?h = "fst (add_child h n s)"
  note a = add_child_props [OF assms(2), where s = s]
  have l: "length ?h = Suc (length h)" by (rule a(2))
  have ne: "h \<noteq> []" and root: "parent (h ! 0) = None"
    using tree_shape_root [OF assms(1)] by simp_all
  show "?h \<noteq> []" using l by auto
  have "0 < length h" using ne by simp
  then show "parent (?h ! 0) = None"
    using add_child_fields(1) [OF assms(2), where i = 0 and s = s] root by simp
  show "0 \<le> visits (?h ! i)" if "i < length ?h" for i
  proof (cases "i < length h")
    case True
    then show ?thesis
      using add_child_fields(2) [OF assms(2) True, where s = s] tree_shape_visits [OF assms(1) True]
      by simp
  next
    case False
    then have "i = length h" using that l by simp
    then show ?thesis by (simp add: a(3) Node_def)
  qed
  show "\<exists>p < i. parent (?h ! i) = Some p" if "i < length ?h" "0 < i" for i
  proof (cases "i < length h")
    case True
    then show ?thesis
      using add_child_fields(1) [OF assms(2) True, where s = s] tree_shape_parent [OF assms(1) True that(2)]
      by simp
  next
    case False
    then have "i = length h" using that l by simp
    then show ?thesis using assms(2) by (simp add: a(3) Node_def)
  qed
  show "i < c \<and> c < length ?h" if "i < length ?h" "c \<in> set (children (?h ! i))" for i c
  proof (cases "i < length h")
    case True
    have "c = length h \<or> c \<in> set (children (h ! i))"
      using add_child_fields(4) [OF assms(2) True, where s = s] that(2) by auto
    then show ?thesis
      using True tree_shape_children [OF assms(1) True, of c] l by auto
  next
    case False
    then have "i = length h" using that l by simp
    then show ?thesis using that(2) by (simp add: a(3) Node_def)
  qed
qed

lemma visited_add_child:
  assumes "visited h 0" "n < length h"
  shows "visited (fst (add_child h n s)) (length h)"
  unfolding visited_def
proof (intro allI impI)
  fix i
  assume "i < length (fst (add_child h n s))" and b: "0 < i \<and> i \<noteq> length h"
  then have i: "i < length h" by (simp add: add_child_props(2) [OF assms(2)])
  have "1 \<le> visits (h ! i)" using assms(1) i b by (intro visited_nth [of h 0]) simp_all
  then show "1 \<le> visits (fst (add_child h n s) ! i)"
    by (simp add: add_child_fields(2) [OF assms(2) i])
qed

lemma expand_ok:
  assumes "tree_shape h" "visited h 0" "n < length h"
  shows "\<exists>h1 c k'. expand rnd k h n = Inr (h1, c, k') \<and> tree_shape h1 \<and> visited h1 c \<and>
     c < length h1"
proof -
  obtain b k1 where fe: "fully_expanded rnd k h n = Inr (b, k1)"
    using fully_expanded_total by blast
  show ?thesis
  proof (cases b)
    case True
    then have "expand rnd k h n = Inr (h, n, k1)"
      using fe by (simp add: expand_def and_then_def)
    moreover have "visited h n" using assms(2) by (simp add: visited_def)
    ultimately show ?thesis using assms by blast
  next
    case False
    obtain moves k2 where m: "legal_moves rnd k1 (state (h ! n)) = Inr (moves, k2)" "moves \<noteq> []"
      using legal_moves_terminal [of rnd k1 "state (h ! n)"] by blast
    let ?s = "moves ! (rnd k2 mod length moves)"
    let ?h1 = "fst (add_child h n ?s)"
    have "expand rnd k h n = Inr (?h1, length h, Suc k2)"
      using fe False m
      by (simp add: expand_def and_then_def choice_def case_prod_beta
          add_child_props(1) [OF assms(3)])
    moreover have "tree_shape ?h1" using assms(1,3) by (rule tree_shape_add_child)
    moreover have "visited ?h1 (length h)" using assms(2,3) by (rule visited_add_child)
    moreover have "length h < length ?h1" by (simp add: add_child_props(2) [OF assms(3)])
    ultimately show ?thesis by blast
  qed
qed

lemma simulate_random_game_ok:
  "\<exists>r. simulate_random_game rnd k s = Some r \<and> r \<noteq> Inl ZeroDivisionError"
proof -
  obtain x where x: "simulate_loop rnd k s = Some (Inr x)"
    using simulate_loop_terminal [of s rnd k] simulate_loop_one [of s rnd k]
    by (cases "is_terminal s") auto
  obtain s' k' where "x = (s', k')" by (cases x)
  then have "simulate_random_game rnd k s = Some (and_then (game_result s') (\<lambda>r. Inr (r, k')))"
    using x by (simp add: simulate_random_game_def)
  moreover have "and_then (game_result s') (\<lambda>r. Inr (r, k')) \<noteq> Inl ZeroDivisionError"
    by (cases "game_result s'") (auto simp: and_then_def dest: game_result_error)
  ultimately show ?thesis by simp
qed

lemma simulation_ok:
  assumes "tree_shape h" "visited h 0"
  shows "\<exists>r. simulation rnd k h = Some r \<and> r \<noteq> Inl ZeroDivisionError \<and>
     (\<forall>h' k'. r = Inr (h', k') \<longrightarrow> tree_shape h' \<and> visited h' 0)"
proof -
  have "0 < length h" using tree_shape_root [OF assms(1)] by simp
  from select_ok [OF assms this, of rnd k] obtain r1 where
    r1: "select rnd k h 0 = Some r1" "r1 \<noteq> Inl ZeroDivisionError"
    "\<forall>m k'. r1 = Inr (m, k') \<longrightarrow> m < length h"
    by blast
  show ?thesis
  proof (cases r1)
    case (Inl e)
    then show ?thesis using r1 by (simp add: simulation_def)
  next
    case (Inr x)
    obtain n k1 where x: "x = (n, k1)" by (cases x)
    have n: "n < length h" using r1(3) Inr x by simp
    from expand_ok [OF assms n, of rnd k1] obtain h1 c k2 where
      e: "expand rnd k1 h n = Inr (h1, c, k2)" "tree_shape h1" "visited h1 c" "c < length h1"
      by blast
    from simulate_random_game_ok [of rnd k2 "state (h1 ! c)"] obtain r3 where
      r3: "simulate_random_game rnd k2 (state (h1 ! c)) = Some r3" "r3 \<noteq> Inl ZeroDivisionError"
      by blast
    show ?thesis
    proof (cases r3)
      case (Inl e3)
      then show ?thesis using r1(1) Inr x e(1) r3 by (simp add: simulation_def)
    next
      case (Inr y)
      obtain outcome k3 where y: "y = (outcome, k3)" by (cases y)
      from backpropagate_ok [OF e(2) e(4), of outcome] obtain h2 where
        h2: "backpropagate h1 (Some c) outcome = Some h2" "tree_shape h2" "length h2 = length h1"
        "\<forall>i < length h1. visits (h1 ! i) \<le> visits (h2 ! i) \<and> state (h2 ! i) = state (h1 ! i) \<and>
           children (h2 ! i) = children (h1 ! i)"
        "visits (h1 ! c) < visits (h2 ! c)"
        by blast
      have s: "simulation rnd k h = Some (Inr (h2, k3))"
        using r1(1) \<open>r1 = Inr x\<close> x e(1) r3(1) Inr y h2(1) by (simp add: simulation_def)
      have "visited h2 0"
        unfolding visited_def
      proof (intro allI impI)
        fix i
        assume i: "i < length h2" and "0 < i \<and> i \<noteq> 0"
        then have p: "0 < i" by simp
        have i1: "i < length h1" using i h2(3) by simp
        show "1 \<le> visits (h2 ! i)"
        proof (cases "i = c")
          case True
          have "0 \<le> visits (h1 ! c)" using e(2) e(4) by (rule tree_shape_visits)
          then show ?thesis using h2(5) True by simp
        next
          case False
          have "1 \<le> visits (h1 ! i)" using e(3) i1 p False by (rule visited_nth)
          moreover have "visits (h1 ! i) \<le> visits (h2 ! i)" using h2(4) i1 by simp
          ultimately show ?thesis by simp
        qed
      qed
      then show ?thesis using s h2(2) by simp
    qed
  qed
qed

lemma simulations_ok:
  assumes "tree_shape h" "visited h 0"
  shows "\<exists>r. simulations n rnd k h = Some r \<and> r \<noteq> Inl ZeroDivisionError \<and>
     (\<forall>h' k'. r = Inr (h', k') \<longrightarrow> tree_shape h' \<and> visited h' 0)"
  using assms
proof (induction n arbitrary: k h)
  case 0
  then show ?case by simp
next
  case (Suc n)
  from simulation_ok [OF Suc.prems, of rnd k] obtain r where
    r: "simulation rnd k h = Some r" "r \<noteq> Inl ZeroDivisionError"
    "\<forall>h' k'. r = Inr (h', k') \<longrightarrow> tree_shape h' \<and> visited h' 0"
    by blast
  show ?case
  proof (cases r)
    case (Inl e)
    then show ?thesis using r by simp
  next
    case (Inr x)
    obtain h' k' where x: "x = (h', k')" by (cases x)
    then have "tree_shape h'" "visited h' 0" using r(3) Inr by simp_all
    from Suc.IH [OF this, of k'] show ?thesis using r(1) Inr x by simp
  qed
qed

lemma tree_shape_root_only: "tree_shape [Node s None]" "visited [Node s None] 0"
  by (simp_all add: tree_shape_def visited_def Node_def)

lemma ln_1000_ge: "6 \<le> ln (1000::real)"
proof -
  have "exp (6::real) = exp (of_nat 6 * 1)" by simp
  also have "\<dots> = exp 1 ^ 6" by (rule exp_of_nat_mult)
  also have "\<dots> \<le> (3::real) ^ 6" by (intro power_mono exp_le) simp
  also have "\<dots> \<le> 1000" by simp
  finally show ?thesis by (simp add: ln_ge_iff)
qed

lemma ln_6_le: "ln (6::real) \<le> 4" and ln_6_ge: "0 \<le> ln (6::real)"
proof -
  have "(2::real) \<le> exp 1" using exp_ge_add_one_self [of "1::real"] by simp
  then have "(2::real) ^ 4 \<le> exp 1 ^ 4" by (intro power_mono) simp_all
  also have "\<dots> = exp (of_nat 4 * 1)" by (rule exp_of_nat_mult [symmetric])
  finally have "(6::real) \<le> exp 4" by simp
  then have "ln (6::real) \<le> ln (exp 4)" by (subst ln_le_cancel_iff) simp_all
  then show "ln (6::real) \<le> 4" by simp
  show "0 \<le> ln (6::real)" by simp
qed

lemma sqrt_ln_1000: "12 / 5 \<le> sqrt (ln (1000::real))"
proof (rule real_le_rsqrt)
  have "(12 / 5 :: real)\<^sup>2 \<le> 6" by (simp add: power2_eq_square)
  then show "(12 / 5 :: real)\<^sup>2 \<le> ln 1000" using ln_1000_ge by linarith
qed

lemma sqrt_ln_6: "sqrt (ln (6::real)) \<le> 2"
  by (rule real_le_lsqrt) (use ln_6_le in simp_all)

lemma key_grandparent_2:
  "ucb1_key (141 / 100) (example_tree ! 0) (example_tree ! 2) =
     Inr (1 / 2 + 141 / 100 * (sqrt (ln 1000) / 2))"
proof -
  have "\<not> ln (1000::real) < 0" using ln_1000_ge by linarith
  then show ?thesis
    by (simp add: ucb1_key_def example_tree_def py_div_def py_log_def py_sqrt_def and_then_def
        real_sqrt_divide divide_less_0_iff)
qed

lemma key_grandparent_3:
  "ucb1_key (141 / 100) (example_tree ! 0) (example_tree ! 3) =
     Inr (- 1 + 141 / 100 * sqrt (ln 1000))"
proof -
  have "\<not> ln (1000::real) < 0" using ln_1000_ge by linarith
  then show ?thesis
    by (simp add: ucb1_key_def example_tree_def py_div_def py_log_def py_sqrt_def and_then_def)
qed

lemma key_parent_2:
  "ucb1_key (141 / 100) (example_tree ! 1) (example_tree ! 2) =
     Inr (1 / 2 + 141 / 100 * (sqrt (ln 6) / 2))"
  by (simp add: ucb1_key_def example_tree_def py_div_def py_log_def py_sqrt_def and_then_def
        real_sqrt_divide divide_less_0_iff)

lemma key_parent_3:
  "ucb1_key (141 / 100) (example_tree ! 1) (example_tree ! 3) =
     Inr (- 1 + 141 / 100 * sqrt (ln 6))"
  by (simp add: ucb1_key_def example_tree_def py_div_def py_log_def py_sqrt_def and_then_def)

lemma max_from_greatest:
  assumes "\<forall>x \<in> set xs. f x = Inr (g x)"
  shows "\<exists>c. max_from f b (g b) xs = Inr c \<and> c \<in> set (b # xs) \<and>
     (\<forall>x \<in> set (b # xs). g x \<le> g c)"
  using assms
proof (induction xs arbitrary: b)
  case Nil
  then show ?case by simp
next
  case (Cons x xs)
  have fx: "f x = Inr (g x)" and rest: "\<forall>y \<in> set xs. f y = Inr (g y)"
    using Cons.prems by simp_all
  show ?case
  proof (cases "g x > g b")
    case True
    from Cons.IH [OF rest, of x] obtain c where
      c: "max_from f x (g x) xs = Inr c" "c \<in> set (x # xs)" "\<forall>y \<in> set (x # xs). g y \<le> g c"
      by blast
    then have "g b \<le> g c" using True by fastforce
    then show ?thesis using c fx True by auto
  next
    case False
    from Cons.IH [OF rest, of b] obtain c where
      c: "max_from f b (g b) xs = Inr c" "c \<in> set (b # xs)" "\<forall>y \<in> set (b # xs). g y \<le> g c"
      by blast
    then have "g x \<le> g c" using False by fastforce
    then show ?thesis using c fx False by auto
  qed
qed

lemma py_max_greatest:
  assumes "xs \<noteq> []" "\<forall>x \<in> set xs. f x = Inr (g x)"
  shows "\<exists>c. py_max f xs = Inr c \<and> c \<in> set xs \<and> (\<forall>x \<in> set xs. g x \<le> g c)"
proof -
  obtain b ys where xs: "xs = b # ys" using assms(1) by (cases xs) auto
  then have "f b = Inr (g b)" "\<forall>x \<in> set ys. f x = Inr (g x)" using assms(2) by simp_all
  then show ?thesis
    using max_from_greatest [of ys f g b] by (simp add: py_max_def xs)
qed

lemma best_child_greatest:
  assumes "children (h ! n) \<noteq> []"
    and "\<forall>c \<in> set (children (h ! n)). 1 \<le> visits (h ! c)"
  shows "parent (h ! n) = None \<Longrightarrow>
      \<exists>c. best_child h n w = Inr c \<and> c \<in> set (children (h ! n)) \<and>
        (\<forall>x \<in> set (children (h ! n)).
           real_of_int (wins (h ! x)) / real_of_int (visits (h ! x))
           \<le> real_of_int (wins (h ! c)) / real_of_int (visits (h ! c)))"
    and "parent (h ! n) = Some p \<Longrightarrow> 1 \<le> visits (h ! p) \<Longrightarrow>
      \<exists>c. best_child h n w = Inr c \<and> c \<in> set (children (h ! n)) \<and>
        (\<forall>x \<in> set (children (h ! n)).
           real_of_int (wins (h ! x)) / real_of_int (visits (h ! x))
             + w * sqrt (ln (real_of_int (visits (h ! p))) / real_of_int (visits (h ! x)))
           \<le> real_of_int (wins (h ! c)) / real_of_int (visits (h ! c))
             + w * sqrt (ln (real_of_int (visits (h ! p))) / real_of_int (visits (h ! c))))"
proof -
  assume r: "parent (h ! n) = None"
  have "\<forall>x \<in> set (children (h ! n)).
      exploit_key (h ! x) = Inr (real_of_int (wins (h ! x)) / real_of_int (visits (h ! x)))"
    using assms(2) by (auto simp: exploit_key_def py_div_def)
  from py_max_greatest [OF assms(1) this]
  show "\<exists>c. best_child h n w = Inr c \<and> c \<in> set (children (h ! n)) \<and>
        (\<forall>x \<in> set (children (h ! n)).
           real_of_int (wins (h ! x)) / real_of_int (visits (h ! x))
           \<le> real_of_int (wins (h ! c)) / real_of_int (visits (h ! c)))"
    by (simp add: best_child_def r)
next
  assume r: "parent (h ! n) = Some p" and v: "1 \<le> visits (h ! p)"
  have l: "0 \<le> ln (real_of_int (visits (h ! p)))" using v by simp
  have "\<forall>x \<in> set (children (h ! n)).
      ucb1_key w (h ! p) (h ! x) =
        Inr (real_of_int (wins (h ! x)) / real_of_int (visits (h ! x))
             + w * sqrt (ln (real_of_int (visits (h ! p))) / real_of_int (visits (h ! x))))"
  proof
    fix x
    assume "x \<in> set (children (h ! n))"
    then have x: "1 \<le> visits (h ! x)" using assms(2) by simp
    then have "0 \<le> ln (real_of_int (visits (h ! p))) / real_of_int (visits (h ! x))"
      using l by simp
    then show "ucb1_key w (h ! p) (h ! x) =
        Inr (real_of_int (wins (h ! x)) / real_of_int (visits (h ! x))
             + w * sqrt (ln (real_of_int (visits (h ! p))) / real_of_int (visits (h ! x))))"
      using x v by (simp add: ucb1_key_def py_div_def py_log_def py_sqrt_def and_then_def not_less)
  qed
  from py_max_greatest [OF assms(1) this]
  show "\<exists>c. best_child h n w = Inr c \<and> c \<in> set (children (h ! n)) \<and>
        (\<forall>x \<in> set (children (h ! n)).
           real_of_int (wins (h ! x)) / real_of_int (visits (h ! x))
             + w * sqrt (ln (real_of_int (visits (h ! p))) / real_of_int (visits (h ! x)))
           \<le> real_of_int (wins (h ! c)) / real_of_int (visits (h ! c))
             + w * sqrt (ln (real_of_int (visits (h ! p))) / real_of_int (visits (h ! c))))"
    by (simp add: best_child_def r)
qed


section \<open>The search on states with cards of the deck\<close>

lemma valid_cards_append: "valid_cards (xs @ ys) \<longleftrightarrow> valid_cards xs \<and> valid_cards ys"
  by (simp add: valid_cards_def)

lemma valid_deck_cards: "valid_cards deck_cards"
  by (auto simp: valid_cards_iff set_deck_cards Card_def)

lemma valid_Deck: "valid_cards (fst (Deck rnd k))"
  using valid_cards_perm [OF mset_Deck, of rnd k] valid_deck_cards by simp

lemma deal_valid: "deal rnd k n = Inr (cs, k') \<Longrightarrow> valid_cards cs"
proof (induction n arbitrary: k cs k')
  case 0
  then show ?case by (simp add: valid_cards_def)
next
  case (Suc n)
  obtain d k1 where d: "Deck rnd k = (d, k1)" by (cases "Deck rnd k")
  have l: "length (fst (Deck rnd k)) = 52" by (rule length_Deck)
  then have ne: "d \<noteq> []" using d by auto
  have "valid_cards d" using valid_Deck [of rnd k] d by simp
  then have v: "rank (last d) \<in> set ranks"
    using ne by (simp add: valid_cards_def list_all_iff)
  obtain cs1 k2 where r: "deal rnd k1 n = Inr (cs1, k2)"
    using deal_ok [of rnd k1 n] by blast
  then have "valid_cards cs1" by (rule Suc.IH)
  moreover have "cs = last d # cs1"
    using Suc.prems d ne r by (simp add: draw_card_def)
  ultimately show ?case using v by (simp add: valid_cards_def)
qed

lemma legal_moves_state_ok:
  assumes "state_ok s" "legal_moves rnd k s = Inr (moves, k')"
  shows "list_all state_ok moves"
proof (cases "length (community_cards s) < 5")
  case True
  obtain cs k1 where d: "deal rnd k (5 - length (community_cards s)) = Inr (cs, k1)"
    using deal_ok [of rnd k "5 - length (community_cards s)"] by blast
  then have v: "valid_cards cs" by (rule deal_valid)
  have "moves =
        [PokerGameState (hand s) (community_cards s) (pot s) True 0,
         PokerGameState (hand s) (community_cards s @ cs) (pot s + current_bet s) False 0,
         PokerGameState (hand s) (community_cards s @ cs) (pot s + current_bet s + 10) False 0,
         PokerGameState (hand s) (community_cards s @ cs) (pot s + current_bet s + 20) False 0,
         PokerGameState (hand s) (community_cards s @ cs) (pot s + current_bet s + 50) False 0]"
    using assms(2) True d by (simp add: legal_moves_def and_then_def Let_def)
  then show ?thesis
    using assms(1) v by (auto simp: state_ok_def PokerGameState_def valid_cards_append)
next
  case False
  then show ?thesis
    using assms legal_moves_ge5 [OF False, of rnd k]
    by (auto simp: state_ok_def PokerGameState_def)
qed

lemma game_result_ok:
  assumes "state_ok s"
  shows "game_result s = Inr 1 \<or> game_result s = Inr (- 1)"
proof -
  have n: "hand s @ community_cards s \<noteq> []" and v: "valid_cards (hand s @ community_cards s)"
    using assms by (simp_all add: state_ok_def)
  obtain cat where "evaluate_hand (hand s @ community_cards s) = Inr cat"
    using evaluate_hand_total [OF n v] by blast
  then have "hand_rank (hand s @ community_cards s) = Inr cat"
    using v by (simp add: hand_rank_eq)
  then show ?thesis by (simp add: game_result_eq and_then_def)
qed

lemma simulate_random_game_good:
  assumes "state_ok s"
  shows "\<exists>r k'. simulate_random_game rnd k s = Some (Inr (r, k')) \<and> (r = 1 \<or> r = - 1)"
proof -
  have "\<exists>s' k'. simulate_loop rnd k s = Some (Inr (s', k')) \<and> state_ok s'"
  proof (cases "is_terminal s")
    case True
    then show ?thesis using assms by (simp add: simulate_loop_terminal)
  next
    case False
    from simulate_loop_one [OF False, of rnd k] obtain moves k' where
      m: "legal_moves rnd k s = Inr (moves, k')" "rnd k' mod length moves < length moves"
      "simulate_loop rnd k s = Some (Inr (moves ! (rnd k' mod length moves), Suc k'))"
      by blast
    have "list_all state_ok moves" using assms m(1) by (rule legal_moves_state_ok)
    then have "state_ok (moves ! (rnd k' mod length moves))"
      using m(2) by (simp add: list_all_length)
    then show ?thesis using m(3) by blast
  qed
  then obtain s' k' where s': "simulate_loop rnd k s = Some (Inr (s', k'))" "state_ok s'"
    by blast
  from game_result_ok [OF s'(2)] show ?thesis
    using s'(1) by (auto simp: simulate_random_game_def and_then_def)
qed

lemma good_states_nth:
  "good_states h \<Longrightarrow> i < length h \<Longrightarrow> state_ok (state (h ! i))"
  "good_states h \<Longrightarrow> i < length h \<Longrightarrow> 0 < i \<Longrightarrow> is_terminal (state (h ! i))"
  unfolding good_states_def by blast+

lemma fully_expanded_eq:
  "legal_moves rnd k (state (h ! n)) = Inr (moves, k') \<Longrightarrow>
   fully_expanded rnd k h n = Inr (length (children (h ! n)) = length moves, k')"
  by (simp add: fully_expanded_def and_then_def)

lemma root_children_visited:
  assumes "tree_shape h" "visited h 0" "n < length h"
  shows "\<forall>c \<in> set (children (h ! n)). 1 \<le> visits (h ! c)"
proof
  fix c
  assume "c \<in> set (children (h ! n))"
  with assms(1,3) have "n < c \<and> c < length h" by (rule tree_shape_children)
  then show "1 \<le> visits (h ! c)" using assms(2) by (intro visited_nth [of h 0]) simp_all
qed

lemma select_good:
  assumes "tree_shape h" "visited h 0" "good_states h"
  shows "\<exists>m k'. select rnd k h 0 = Some (Inr (m, k')) \<and> m < length h \<and>
     (children (h ! 0) = [] \<longrightarrow> m = 0)"
proof -
  have l: "0 < length h" and root: "parent (h ! 0) = None"
    using tree_shape_root [OF assms(1)] by simp_all
  obtain moves k1 where m: "legal_moves rnd k (state (h ! 0)) = Inr (moves, k1)" "moves \<noteq> []"
    using legal_moves_terminal [of rnd k "state (h ! 0)"] by blast
  note fe = fully_expanded_eq [OF m(1)]
  show ?thesis
  proof (cases "length (children (h ! 0)) = length moves \<and> \<not> is_terminal (state (h ! 0))")
    case False
    then have "select rnd k h 0 = Some (Inr (0, k1))"
      using fe by (subst select.simps) auto
    then show ?thesis using l by simp
  next
    case True
    then have ne: "children (h ! 0) \<noteq> []" using m(2) by auto
    from best_child_greatest(1) [OF ne root_children_visited [OF assms(1,2) l] root, of "141 / 100"]
    obtain c where c: "best_child h 0 (141 / 100) = Inr c" "c \<in> set (children (h ! 0))"
      by blast
    have cl: "0 < c \<and> c < length h" using assms(1) l c(2) by (rule tree_shape_children)
    have s: "select rnd k h 0 = select rnd k1 h c"
      using fe True c(1) by (subst select.simps) simp
    obtain b k2 where fc: "fully_expanded rnd k1 h c = Inr (b, k2)"
      using fully_expanded_total by blast
    have "is_terminal (state (h ! c))" using assms(3) cl by (intro good_states_nth(2)) simp_all
    then have "select rnd k1 h c = Some (Inr (c, k2))"
      using fc by (subst select.simps) simp
    then show ?thesis using s cl ne by simp
  qed
qed

lemma expand_good:
  assumes "tree_shape h" "good_states h" "n < length h"
  shows "\<exists>h1 c k'. expand rnd k h n = Inr (h1, c, k') \<and> good_states h1 \<and>
     (n = 0 \<or> children (h ! 0) \<noteq> [] \<longrightarrow> children (h1 ! 0) \<noteq> [])"
proof -
  have l: "0 < length h" using tree_shape_root [OF assms(1)] by simp
  obtain moves0 k1 where m0: "legal_moves rnd k (state (h ! n)) = Inr (moves0, k1)"
    "moves0 \<noteq> []"
    using legal_moves_terminal [of rnd k "state (h ! n)"] by blast
  note fe = fully_expanded_eq [OF m0(1)]
  show ?thesis
  proof (cases "length (children (h ! n)) = length moves0")
    case True
    then have "expand rnd k h n = Inr (h, n, k1)"
      using fe by (simp add: expand_def and_then_def)
    moreover have "n = 0 \<longrightarrow> children (h ! 0) \<noteq> []" using True m0(2) by auto
    ultimately show ?thesis using assms(2) by auto
  next
    case False
    obtain moves k2 where m: "legal_moves rnd k1 (state (h ! n)) = Inr (moves, k2)"
      "moves \<noteq> []" "list_all is_terminal moves"
      using legal_moves_terminal [of rnd k1 "state (h ! n)"] by blast
    let ?s = "moves ! (rnd k2 mod length moves)"
    let ?h1 = "fst (add_child h n ?s)"
    have i: "rnd k2 mod length moves < length moves" using m(2) by simp
    have "state_ok (state (h ! n))" using assms(2,3) by (rule good_states_nth(1))
    then have "list_all state_ok moves" using m(1) by (rule legal_moves_state_ok)
    then have ok: "state_ok ?s" using i by (simp add: list_all_length)
    have t: "is_terminal ?s" using m(3) i by (simp add: list_all_length)
    have e: "expand rnd k h n = Inr (?h1, length h, Suc k2)"
      using fe False m
      by (simp add: expand_def and_then_def choice_def case_prod_beta
          add_child_props(1) [OF assms(3)])
    note a = add_child_props [OF assms(3), where s = ?s]
    have g: "good_states ?h1"
      unfolding good_states_def
    proof (intro allI impI)
      fix i
      assume "i < length ?h1"
      then have "i < length h \<or> i = length h" using a(2) by auto
      then show "state_ok (state (?h1 ! i)) \<and> (0 < i \<longrightarrow> is_terminal (state (?h1 ! i)))"
      proof
        assume il: "i < length h"
        then show ?thesis
          using good_states_nth [OF assms(2) il] add_child_fields(3) [OF assms(3) il, where s = ?s]
          by simp
      next
        assume "i = length h"
        then show ?thesis using ok t by (simp add: a(3) Node_def)
      qed
    qed
    have c: "n = 0 \<or> children (h ! 0) \<noteq> [] \<longrightarrow> children (?h1 ! 0) \<noteq> []"
    proof (cases "n = 0")
      case True
      then show ?thesis using a(4) by simp
    next
      case False
      then show ?thesis using a(5) [of 0] l by simp
    qed
    from e g c show ?thesis by blast
  qed
qed

lemma simulation_good:
  assumes "tree_shape h" "visited h 0" "good_states h"
  shows "\<exists>h' k'. simulation rnd k h = Some (Inr (h', k')) \<and> tree_shape h' \<and> visited h' 0 \<and>
     good_states h' \<and> children (h' ! 0) \<noteq> []"
proof -
  from select_good [OF assms, of rnd k] obtain m k1 where
    s: "select rnd k h 0 = Some (Inr (m, k1))" "m < length h" "children (h ! 0) = [] \<longrightarrow> m = 0"
    by blast
  from expand_ok [OF assms(1,2) s(2), of rnd k1] obtain h1 c k2 where
    e: "expand rnd k1 h m = Inr (h1, c, k2)" "tree_shape h1" "c < length h1"
    by blast
  from expand_good [OF assms(1,3) s(2), of rnd k1] e(1) s(3) have
    g: "good_states h1" "children (h1 ! 0) \<noteq> []"
    by auto
  have "state_ok (state (h1 ! c))" using g(1) e(3) by (rule good_states_nth(1))
  from simulate_random_game_good [OF this, of rnd k2] obtain outcome k3 where
    r: "simulate_random_game rnd k2 (state (h1 ! c)) = Some (Inr (outcome, k3))"
    by blast
  from backpropagate_ok [OF e(2) e(3), of outcome] obtain h2 where
    h2: "backpropagate h1 (Some c) outcome = Some h2" "length h2 = length h1"
    "\<forall>i < length h1. visits (h1 ! i) \<le> visits (h2 ! i) \<and> state (h2 ! i) = state (h1 ! i) \<and>
       children (h2 ! i) = children (h1 ! i)"
    by blast
  have sim: "simulation rnd k h = Some (Inr (h2, k3))"
    using s(1) e(1) r h2(1) by (simp add: simulation_def)
  have l1: "0 < length h1" using tree_shape_root [OF e(2)] by simp
  have g2: "good_states h2"
    unfolding good_states_def using h2(2,3) good_states_nth [OF g(1)] by simp
  have c2: "children (h2 ! 0) \<noteq> []" using h2(3) l1 g(2) by simp
  from simulation_ok [OF assms(1,2), of rnd k] sim
  have "tree_shape h2 \<and> visited h2 0" by auto
  with sim g2 c2 show ?thesis by blast
qed

lemma simulations_good:
  assumes "tree_shape h" "visited h 0" "good_states h"
  shows "\<exists>h' k'. simulations n rnd k h = Some (Inr (h', k')) \<and> tree_shape h' \<and>
     visited h' 0 \<and> good_states h' \<and> (0 < n \<or> children (h ! 0) \<noteq> [] \<longrightarrow> children (h' ! 0) \<noteq> [])"
  using assms
proof (induction n arbitrary: k h)
  case 0
  then show ?case by simp
next
  case (Suc n)
  from simulation_good [OF Suc.prems, of rnd k] obtain h1 k1 where
    s: "simulation rnd k h = Some (Inr (h1, k1))" "tree_shape h1" "visited h1 0"
    "good_states h1" "children (h1 ! 0) \<noteq> []"
    by blast
  from Suc.IH [OF s(2,3,4), of k1] s(5) obtain h' k' where
    "simulations n rnd k1 h1 = Some (Inr (h', k'))" "tree_shape h'" "visited h' 0"
    "good_states h'" "children (h' ! 0) \<noteq> []"
    by blast
  then show ?case using s(1) by auto
qed

lemma good_states_root_only: "state_ok s \<Longrightarrow> good_states [Node s None]"
  by (simp add: good_states_def Node_def)

lemma choose_move_returns:
  assumes "state_ok s"
  shows "\<exists>s' k'. choose_move rnd k s = Some (Inr (s', k')) \<and> is_terminal s' \<and> state_ok s'"
proof -
  from simulations_good [OF tree_shape_root_only good_states_root_only [OF assms], of 1000 rnd k]
  obtain h k' where
    h: "simulations 1000 rnd k [Node s None] = Some (Inr (h, k'))" "tree_shape h" "visited h 0"
    "good_states h" "children (h ! 0) \<noteq> []"
    by auto
  have l: "0 < length h" and root: "parent (h ! 0) = None"
    using tree_shape_root [OF h(2)] by simp_all
  from best_child_greatest(1) [OF h(5) root_children_visited [OF h(2,3) l] root, of "141 / 100"]
  obtain c where c: "best_child h 0 (141 / 100) = Inr c" "c \<in> set (children (h ! 0))"
    by blast
  have cl: "0 < c \<and> c < length h" using h(2) l c(2) by (rule tree_shape_children)
  have "choose_move rnd k s = Some (Inr (state (h ! c), k'))"
    using h(1) c(1) by (simp add: choose_move_def and_then_def)
  moreover have "is_terminal (state (h ! c))" "state_ok (state (h ! c))"
    using good_states_nth [OF h(4), of c] cl by simp_all
  ultimately show ?thesis by blast
qed


section \<open>The claims about the hand evaluator\<close>

text \<open>
  C1. A 5-card hand whose rank indices are five consecutive values and whose suits are
  all equal evaluates to ``Straight Flush'', in both files; in
  \<^verbatim>\<open>6_poker_holdem_final.py\<close> the second component is a rank of the hand whose
  index is the highest index present. Giving one of the five cards another suit makes the
  result ``Straight''.
\<close>

theorem straight_flush_classified:
  assumes "length cards = 5"
    and "map_err rank_index cards = Inr ks"
    and "set ks = {m ..< m + 5}"
    and "set (map suit cards) = {s}"
  shows "hand_rank cards = Inr ''Straight Flush'' \<and>
         (\<exists>r. hand_rank6 cards = Inr (''Straight Flush'', r) \<and> r \<in> rank ` set cards \<and>
              index_of ranks r = Inr (Max (set ks))) \<and>
         (\<forall>i s'. i < 5 \<and> s' \<noteq> s \<longrightarrow>
            hand_rank (cards[i := (cards ! i)\<lparr>suit := s'\<rparr>]) = Inr ''Straight'' \<and>
            (\<exists>r. hand_rank6 (cards[i := (cards ! i)\<lparr>suit := s'\<rparr>]) = Inr (''Straight'', r)))"
proof -
  have v: "valid_cards cards" and k: "ks = map ridx cards"
    using assms(2) by (simp_all add: map_err_rank_index_Inr)
  have n: "cards \<noteq> []" using assms(1) by auto
  have r: "set (map ridx cards) = {m ..< m + 5}" using assms(3) k by simp
  have f: "is_flush cards" using assms(4) by (simp add: is_flush_def)
  have e: "evaluate_hand cards = Inr ''Straight Flush''"
    using straight_core [OF v assms(1) r] f by simp
  have 1: "hand_rank cards = Inr ''Straight Flush''"
    using v e by (simp add: hand_rank_eq)
  have 2: "hand_rank6 cards = Inr (''Straight Flush'', rank (hd (desc_sort cards)))"
    using v n e by (simp add: hand_rank6_eq and_then_def)
  have 3: "rank (hd (desc_sort cards)) \<in> rank ` set cards"
    and 4: "index_of ranks (rank (hd (desc_sort cards))) = Inr (Max (set ks))"
    using primary_rank [OF v n] k by simp_all
  have 5: "hand_rank (cards[i := (cards ! i)\<lparr>suit := s'\<rparr>]) = Inr ''Straight'' \<and>
      (\<exists>r. hand_rank6 (cards[i := (cards ! i)\<lparr>suit := s'\<rparr>]) = Inr (''Straight'', r))"
    if "i < 5" "s' \<noteq> s" for i :: nat and s' :: string
  proof -
    let ?cs = "cards[i := (cards ! i)\<lparr>suit := s'\<rparr>]"
    have mr: "map rank ?cs = map rank cards" by (rule map_rank_suit_update)
    have v': "valid_cards ?cs" using v valid_cards_ranks [OF mr] by simp
    have r': "set (map ridx ?cs) = {m ..< m + 5}" using r map_ridx_ranks [OF mr] by simp
    have l': "length ?cs = 5" using assms(1) by simp
    have "\<not> is_flush ?cs"
      using assms(1,4) that by (intro not_flush_after_change) simp_all
    then have e': "evaluate_hand ?cs = Inr ''Straight''"
      using straight_core [OF v' l' r'] by simp
    have n': "?cs \<noteq> []" using n by simp
    show ?thesis
      using v' n' e' by (simp add: hand_rank_eq hand_rank6_eq and_then_def)
  qed
  have A: "\<exists>r. hand_rank6 cards = Inr (''Straight Flush'', r) \<and> r \<in> rank ` set cards \<and>
      index_of ranks r = Inr (Max (set ks))"
    using 2 3 4 by (intro exI [of _ "rank (hd (desc_sort cards))"] conjI)
  have B: "\<forall>i s'. i < 5 \<and> s' \<noteq> s \<longrightarrow>
      hand_rank (cards[i := (cards ! i)\<lparr>suit := s'\<rparr>]) = Inr ''Straight'' \<and>
      (\<exists>r. hand_rank6 (cards[i := (cards ! i)\<lparr>suit := s'\<rparr>]) = Inr (''Straight'', r))"
  proof (intro allI impI)
    fix i :: nat and s' :: string
    assume "i < 5 \<and> s' \<noteq> s"
    then have "i < 5" "s' \<noteq> s" by simp_all
    then show "hand_rank (cards[i := (cards ! i)\<lparr>suit := s'\<rparr>]) = Inr ''Straight'' \<and>
      (\<exists>r. hand_rank6 (cards[i := (cards ! i)\<lparr>suit := s'\<rparr>]) = Inr (''Straight'', r))"
      by (rule 5)
  qed
  from 1 A B show ?thesis by (intro conjI)
qed

theorem straight_flush_classified_witness:
  "hand_rank [Card ''A'' ''Spades'', Card ''K'' ''Spades'', Card ''Q'' ''Spades'', Card ''J'' ''Spades'', Card ''10'' ''Spades''] = Inr ''Straight Flush'' \<and>
   hand_rank6 [Card ''A'' ''Spades'', Card ''K'' ''Spades'', Card ''Q'' ''Spades'', Card ''J'' ''Spades'', Card ''10'' ''Spades''] = Inr (''Straight Flush'', ''A'') \<and>
   hand_rank ([Card ''A'' ''Spades'', Card ''K'' ''Spades'', Card ''Q'' ''Spades'', Card ''J'' ''Spades'', Card ''10'' ''Spades''][0 := ([Card ''A'' ''Spades'', Card ''K'' ''Spades'', Card ''Q'' ''Spades'', Card ''J'' ''Spades'', Card ''10'' ''Spades''] ! 0)\<lparr>suit := ''Hearts''\<rparr>]) = Inr ''Straight''"
proof -
  let ?cs = "[Card ''A'' ''Spades'', Card ''K'' ''Spades'', Card ''Q'' ''Spades'', Card ''J'' ''Spades'', Card ''10'' ''Spades'']"
  have 1: "length ?cs = 5" by simp
  have 2: "map_err rank_index ?cs = Inr [12, 11, 10, 9, 8]"
    by (simp add: rank_index_def ranks_def Card_def)
  have 3: "set [12, 11, 10, 9, 8 :: nat] = {8 ..< 8 + 5}" by code_simp
  have 4: "set (map suit ?cs) = {''Spades''}" by (simp add: Card_def)
  note t = straight_flush_classified [OF 1 2 3 4]
  have a: "hand_rank ?cs = Inr ''Straight Flush''" using t by (rule conjunct1)
  obtain r where r: "hand_rank6 ?cs = Inr (''Straight Flush'', r)"
    and i: "index_of ranks r = Inr (Max (set [12, 11, 10, 9, 8]))"
    using t by (elim conjE exE)
  have "ranks ! 12 = r" using i by (simp add: index_of_nth)
  then have b: "r = ''A''" by (simp add: ranks_def)
  have "(0::nat) < 5 \<and> ''Hearts'' \<noteq> ''Spades'' \<longrightarrow>
      hand_rank (?cs[0 := (?cs ! 0)\<lparr>suit := ''Hearts''\<rparr>]) = Inr ''Straight'' \<and>
      (\<exists>r. hand_rank6 (?cs[0 := (?cs ! 0)\<lparr>suit := ''Hearts''\<rparr>]) = Inr (''Straight'', r))"
    using t by (elim conjE allE)
  then have c: "hand_rank (?cs[0 := (?cs ! 0)\<lparr>suit := ''Hearts''\<rparr>]) = Inr ''Straight''"
    by simp
  from a r b c show ?thesis by simp
qed

text \<open>
  C2. A 5-card hand whose ranks are A, 2, 3, 4, 5 in any order and whose suits are not all
  equal evaluates to ``Straight'' (with primary rank A in \<^verbatim>\<open>6_poker_holdem_final.py\<close>).
\<close>

theorem wheel_is_straight:
  assumes "mset (map rank cards) = mset [''A'', ''2'', ''3'', ''4'', ''5'']"
    and "\<exists>c \<in> set cards. \<exists>d \<in> set cards. suit c \<noteq> suit d"
  shows "hand_rank cards = Inr ''Straight'' \<and> hand_rank6 cards = Inr (''Straight'', ''A'')"
proof -
  let ?f = "\<lambda>r. case index_of ranks r of Inl _ \<Rightarrow> 0 | Inr n \<Rightarrow> n"
  have "set (map rank cards) = set [''A'', ''2'', ''3'', ''4'', ''5'']"
    using assms(1) by (rule mset_eq_setD)
  then have v: "valid_cards cards"
    unfolding valid_cards_iff by (simp add: ranks_def)
  have "length (map rank cards) = length [''A'', ''2'', ''3'', ''4'', ''5'']"
    using assms(1) by (rule mset_eq_length)
  then have l: "length cards = 5" by simp
  then have n: "cards \<noteq> []" by auto
  have "mset (map ridx cards) = image_mset ?f (mset (map rank cards))"
    unfolding map_ridx_eq by (simp only: mset_map)
  also have "\<dots> = mset (map ?f [''A'', ''2'', ''3'', ''4'', ''5''])"
    unfolding assms(1) by (simp only: mset_map)
  also have "map ?f [''A'', ''2'', ''3'', ''4'', ''5''] = [12, 0, 1, 2, 3]"
    by (simp add: ranks_def)
  finally have m: "mset (map ridx cards) = mset [12, 0, 1, 2, 3]" .
  then have "sort (map ridx cards) = sort [12, 0, 1, 2, 3]" by (rule sort_perm)
  then have s: "sort (map ridx cards) = [0, 1, 2, 3, 12]" by simp
  have st: "is_straight cards = Inr True"
    using v n s by (simp add: is_straight_eq)
  have "distinct (map rank cards) \<longleftrightarrow> distinct [''A'', ''2'', ''3'', ''4'', ''5'']"
    using assms(1) by (rule mset_eq_imp_distinct_iff)
  then have d: "distinct (map rank cards)" by simp
  have nf: "\<not> is_flush cards"
  proof
    assume "is_flush cards"
    then obtain x where "set (map suit cards) = {x}"
      by (auto simp: is_flush_def card_1_singleton_iff)
    then have "\<forall>c \<in> set cards. suit c = x" by auto
    with assms(2) show False by auto
  qed
  have e: "evaluate_hand cards = Inr ''Straight''"
    using no_groups [OF d] st nf
    by (simp add: evaluate_hand_def is_straight_flush_def and_then_def)
  have "set (map ridx cards) = set [12, 0, 1, 2, 3]"
    using m by (rule mset_eq_setD)
  then have "Max (ridx ` set cards) = 12" by simp
  then have "index_of ranks (rank (hd (desc_sort cards))) = Inr 12"
    using primary_rank(2) [OF v n] by simp
  then have "ranks ! 12 = rank (hd (desc_sort cards))"
    by (simp add: index_of_nth)
  then have p: "rank (hd (desc_sort cards)) = ''A''"
    by (simp add: ranks_def)
  show ?thesis
    using v n e p by (simp add: hand_rank_eq hand_rank6_eq and_then_def)
qed

theorem wheel_is_straight_witness:
  "hand_rank [Card ''5'' ''Hearts'', Card ''A'' ''Spades'', Card ''3'' ''Diamonds'',
      Card ''2'' ''Clubs'', Card ''4'' ''Clubs''] = Inr ''Straight'' \<and>
   hand_rank6 [Card ''5'' ''Hearts'', Card ''A'' ''Spades'', Card ''3'' ''Diamonds'',
      Card ''2'' ''Clubs'', Card ''4'' ''Clubs''] = Inr (''Straight'', ''A'')"
proof -
  let ?cs = "[Card ''5'' ''Hearts'', Card ''A'' ''Spades'', Card ''3'' ''Diamonds'',
      Card ''2'' ''Clubs'', Card ''4'' ''Clubs'']"
  have 1: "mset (map rank ?cs) = mset [''A'', ''2'', ''3'', ''4'', ''5'']"
    by (simp add: Card_def)
  have 2: "\<exists>c \<in> set ?cs. \<exists>d \<in> set ?cs. suit c \<noteq> suit d"
    by (rule bexI [of _ "Card ''5'' ''Hearts''"], rule bexI [of _ "Card ''A'' ''Spades''"])
       (simp_all add: Card_def)
  show ?thesis by (rule wheel_is_straight [OF 1 2])
qed

text \<open>
  C6, as the code has it. \<open>PokerHand\<close> has no check of the hand size: for every non-empty
  hand of cards with ranks of \<open>Card.ranks\<close>, of any length, it returns one of the nine
  categories.
\<close>

theorem evaluate_any_size:
  assumes "cards \<noteq> []" and "valid_cards cards"
  shows "(\<exists>cat. hand_rank cards = Inr cat \<and>
      cat \<in> set hand_categories) \<and>
    (\<exists>cat r. hand_rank6 cards = Inr (cat, r) \<and>
      cat \<in> set hand_categories)"
proof -
  obtain cat where c: "evaluate_hand cards = Inr cat"
    "cat \<in> set hand_categories"
    using evaluate_hand_total [OF assms] by blast
  have 1: "hand_rank cards = Inr cat" using assms c by (simp add: hand_rank_eq)
  have 2: "hand_rank6 cards = Inr (cat, rank (hd (desc_sort cards)))"
    using assms c by (simp add: hand_rank6_eq and_then_def)
  from 1 2 c(2) show ?thesis by blast
qed

theorem evaluate_any_size_witness:
  "(\<exists>cat. hand_rank [Card ''2'' ''Clubs'', Card ''7'' ''Diamonds'', Card ''9'' ''Hearts'',
        Card ''J'' ''Spades'', Card ''4'' ''Diamonds'', Card ''K'' ''Clubs'', Card ''3'' ''Clubs'',
        Card ''8'' ''Hearts''] = Inr cat \<and> cat \<in> set hand_categories) \<and>
   (\<exists>cat r. hand_rank6 [Card ''2'' ''Clubs'', Card ''7'' ''Diamonds'', Card ''9'' ''Hearts'',
        Card ''J'' ''Spades'', Card ''4'' ''Diamonds'', Card ''K'' ''Clubs'', Card ''3'' ''Clubs'',
        Card ''8'' ''Hearts''] = Inr (cat, r) \<and> cat \<in> set hand_categories)"
  by (rule evaluate_any_size) (simp_all add: valid_cards_def ranks_def Card_def)

text \<open>
  C6 as stated fails: a hand of four cards is not rejected, it is evaluated.
\<close>

theorem invalid_hand_size_counterexample:
  "length [Card ''2'' ''Clubs'', Card ''7'' ''Diamonds'', Card ''9'' ''Hearts'',
      Card ''J'' ''Spades''] < 5 \<and>
   hand_rank [Card ''2'' ''Clubs'', Card ''7'' ''Diamonds'', Card ''9'' ''Hearts'',
      Card ''J'' ''Spades''] = Inr ''High Card'' \<and>
   hand_rank6 [Card ''2'' ''Clubs'', Card ''7'' ''Diamonds'', Card ''9'' ''Hearts'',
      Card ''J'' ''Spades''] = Inr (''High Card'', ''J'')"
  by code_simp

text \<open>
  C8. The category does not depend on the order of the input cards: two lists with the
  same cards (equal as multisets) get the same result, a failure included.
\<close>

theorem category_permutation_invariant:
  "mset ys = mset xs \<Longrightarrow>
   hand_rank ys = hand_rank xs \<and>
   map_sum id fst (hand_rank6 ys) = map_sum id fst (hand_rank6 xs)"
proof -
  assume a: "mset ys = mset xs"
  have v: "valid_cards ys = valid_cards xs" using a by (rule valid_cards_perm)
  have e: "evaluate_hand ys = evaluate_hand xs" using a by (rule evaluate_hand_perm)
  have n: "ys = [] \<longleftrightarrow> xs = []" using a by (metis mset_zero_iff)
  show ?thesis
    by (cases "evaluate_hand xs") (simp_all add: hand_rank_eq hand_rank6_eq v e n and_then_def)
qed

theorem category_permutation_invariant_witness:
  "hand_rank [Card ''9'' ''Hearts'', Card ''2'' ''Clubs'', Card ''9'' ''Spades'',
      Card ''2'' ''Diamonds'', Card ''2'' ''Spades''] =
   hand_rank [Card ''2'' ''Clubs'', Card ''2'' ''Diamonds'', Card ''9'' ''Hearts'',
      Card ''9'' ''Spades'', Card ''2'' ''Spades'']"
proof -
  have "mset [Card ''9'' ''Hearts'', Card ''2'' ''Clubs'', Card ''9'' ''Spades'',
      Card ''2'' ''Diamonds'', Card ''2'' ''Spades''] =
    mset [Card ''2'' ''Clubs'', Card ''2'' ''Diamonds'', Card ''9'' ''Hearts'',
      Card ''9'' ''Spades'', Card ''2'' ''Spades'']"
    by (simp add: Card_def)
  then show ?thesis using category_permutation_invariant by blast
qed

section \<open>The claims about the deck and the game state\<close>

text \<open>
  C7. Whatever the shuffle, 52 draws from a new \<open>Deck\<close> succeed and give 52 pairwise
  distinct cards, which are exactly the cards \<open>Card(rank, suit)\<close> for the 13 ranks and 4
  suits; the deck is then empty and the 53rd draw fails (\<open>list.pop\<close> raises IndexError).
\<close>

theorem deck_draws:
  "\<exists>drawn rest. draw_cards 52 (fst (Deck rnd k)) = Inr (drawn, rest) \<and>
      length drawn = 52 \<and> distinct drawn \<and>
      set drawn = (\<lambda>(r, s). Card r s) ` (set ranks \<times> set suits) \<and>
      length ranks * length suits = 52 \<and>
      draw_card rest = Inl IndexError \<and>
      draw_cards 53 (fst (Deck rnd k)) = Inl IndexError"
proof -
  let ?d = "fst (Deck rnd k)"
  have l: "length ?d = 52" by (rule length_Deck)
  have 1: "draw_cards 52 ?d = Inr (rev ?d, [])"
    using draw_cards_all [of ?d] unfolding l .
  have "distinct ?d \<longleftrightarrow> distinct deck_cards"
    using mset_Deck by (rule mset_eq_imp_distinct_iff)
  then have 2: "distinct (rev ?d)" by (simp add: distinct_deck_cards)
  have "set ?d = set deck_cards" using mset_Deck by (rule mset_eq_setD)
  then have 3: "set (rev ?d) = (\<lambda>(r, s). Card r s) ` (set ranks \<times> set suits)"
    by (simp add: set_deck_cards)
  have 4: "draw_cards 53 ?d = Inl IndexError"
    using draw_cards_too_many [of ?d] unfolding l by simp
  have 5: "length ranks * length suits = 52" by (simp add: ranks_def suits_def)
  show ?thesis
    using 1 2 3 4 5 l by (simp add: draw_card_empty)
qed

text \<open>
  C3. For a state with fewer than 5 community cards \<open>legal_moves\<close> returns five states:
  the fold state (flagged terminal, same pot), the call state (pot plus current bet) and
  the raise states for 10, 20 and 50, the last four sharing one list of community cards
  of length 5. For every state the result is non-empty and starts with a terminal state.
\<close>

theorem legal_moves_enumeration:
  "(length (community_cards s) < 5 \<longrightarrow>
      (\<exists>new_cards k'.
         length (community_cards s @ new_cards) = 5 \<and>
         legal_moves rnd k s = Inr (
           [PokerGameState (hand s) (community_cards s) (pot s) True 0,
            PokerGameState (hand s) (community_cards s @ new_cards) (pot s + current_bet s) False 0,
            PokerGameState (hand s) (community_cards s @ new_cards) (pot s + current_bet s + 10) False 0,
            PokerGameState (hand s) (community_cards s @ new_cards) (pot s + current_bet s + 20) False 0,
            PokerGameState (hand s) (community_cards s @ new_cards) (pot s + current_bet s + 50) False 0],
           k'))) \<and>
   (\<exists>moves k'. legal_moves rnd k s = Inr (moves, k') \<and> moves \<noteq> [] \<and>
      is_terminal (hd moves))"
proof -
  have "\<exists>moves k'. legal_moves rnd k s = Inr (moves, k') \<and> moves \<noteq> [] \<and> is_terminal (hd moves)"
  proof -
    obtain moves k' where m: "legal_moves rnd k s = Inr (moves, k')" "moves \<noteq> []"
      "list_all is_terminal moves"
      using legal_moves_terminal [of rnd k s] by blast
    then have "is_terminal (hd moves)" by (cases moves) simp_all
    with m show ?thesis by blast
  qed
  then show ?thesis using legal_moves_lt5 [of s rnd k] by blast
qed

theorem legal_moves_enumeration_witness:
  "\<exists>moves k'. legal_moves (\<lambda>n. 7 * n + 3) 0
      (PokerGameState [Card ''A'' ''Spades'', Card ''K'' ''Spades'']
         [Card ''Q'' ''Spades'', Card ''J'' ''Spades'', Card ''2'' ''Hearts''] 100 False 10)
      = Inr (moves, k') \<and> length moves = 5 \<and> map pot moves = [100, 110, 120, 130, 160]"
proof -
  let ?s = "PokerGameState [Card ''A'' ''Spades'', Card ''K'' ''Spades'']
         [Card ''Q'' ''Spades'', Card ''J'' ''Spades'', Card ''2'' ''Hearts''] 100 False 10"
  have "length (community_cards ?s) < 5" by (simp add: PokerGameState_def)
  with legal_moves_enumeration [of ?s "\<lambda>n. 7 * n + 3" 0]
  obtain new_cards k' where
    "legal_moves (\<lambda>n. 7 * n + 3) 0 ?s = Inr (
           [PokerGameState (hand ?s) (community_cards ?s) (pot ?s) True 0,
            PokerGameState (hand ?s) (community_cards ?s @ new_cards) (pot ?s + current_bet ?s) False 0,
            PokerGameState (hand ?s) (community_cards ?s @ new_cards) (pot ?s + current_bet ?s + 10) False 0,
            PokerGameState (hand ?s) (community_cards ?s @ new_cards) (pot ?s + current_bet ?s + 20) False 0,
            PokerGameState (hand ?s) (community_cards ?s @ new_cards) (pot ?s + current_bet ?s + 50) False 0],
           k')"
    by blast
  then show ?thesis by (simp add: PokerGameState_def)
qed

text \<open>
  C4. For a state whose cards (hole and community together) are non-empty and carry ranks
  of \<open>Card.ranks\<close>, \<open>game_result\<close> is 1 when the category of these cards is Straight Flush,
  Four of a Kind, Full House or Flush, and -1 for every other category. For every state,
  a value \<open>game_result\<close> returns is 1 or -1, and it is 1 exactly for these four categories.
\<close>

theorem game_result_sign:
  "(hand s @ community_cards s \<noteq> [] \<and> valid_cards (hand s @ community_cards s) \<longrightarrow>
      (\<exists>cat. hand_rank (hand s @ community_cards s) = Inr cat \<and>
         cat \<in> set hand_categories \<and>
         game_result s =
           Inr (if cat = ''Straight Flush'' \<or> cat = ''Four of a Kind'' \<or>
                   cat = ''Full House'' \<or> cat = ''Flush'' then 1 else - 1))) \<and>
   (\<forall>v. game_result s = Inr v \<longrightarrow>
      (v = 1 \<or> v = - 1) \<and>
      (\<exists>cat. hand_rank (hand s @ community_cards s) = Inr cat \<and>
         (v = 1 \<longleftrightarrow> cat = ''Straight Flush'' \<or> cat = ''Four of a Kind'' \<or>
            cat = ''Full House'' \<or> cat = ''Flush'')))"
proof (intro conjI impI allI)
  assume a: "hand s @ community_cards s \<noteq> [] \<and> valid_cards (hand s @ community_cards s)"
  then have n: "hand s @ community_cards s \<noteq> []"
    and v: "valid_cards (hand s @ community_cards s)"
    by simp_all
  obtain cat where c: "evaluate_hand (hand s @ community_cards s) = Inr cat"
    "cat \<in> set hand_categories"
    using evaluate_hand_total [OF n v] by blast
  have h: "hand_rank (hand s @ community_cards s) = Inr cat"
    using v c by (simp add: hand_rank_eq)
  have g: "game_result s =
        Inr (if cat = ''Straight Flush'' \<or> cat = ''Four of a Kind'' \<or> cat = ''Full House'' \<or>
                cat = ''Flush'' then 1 else - 1)"
    unfolding game_result_eq h by (simp add: and_then_def winning_hands_def)
  from h c(2) g show "\<exists>cat. hand_rank (hand s @ community_cards s) = Inr cat \<and>
         cat \<in> set hand_categories \<and>
         game_result s =
           Inr (if cat = ''Straight Flush'' \<or> cat = ''Four of a Kind'' \<or>
                   cat = ''Full House'' \<or> cat = ''Flush'' then 1 else - 1)"
    by blast
next
  fix v
  assume r: "game_result s = Inr v"
  then obtain cat where h: "hand_rank (hand s @ community_cards s) = Inr cat"
    unfolding game_result_eq
    by (cases "hand_rank (hand s @ community_cards s)") (simp_all add: and_then_def)
  have g: "v = (if cat \<in> set winning_hands then 1 else - 1)"
    using r unfolding game_result_eq h by (simp add: and_then_def split: if_splits)
  then show "v = 1 \<or> v = - 1" by simp
  have "v = 1 \<longleftrightarrow> cat = ''Straight Flush'' \<or> cat = ''Four of a Kind'' \<or>
            cat = ''Full House'' \<or> cat = ''Flush''"
    unfolding g by (simp add: winning_hands_def)
  with h show "\<exists>cat. hand_rank (hand s @ community_cards s) = Inr cat \<and>
         (v = 1 \<longleftrightarrow> cat = ''Straight Flush'' \<or> cat = ''Four of a Kind'' \<or>
            cat = ''Full House'' \<or> cat = ''Flush'')"
    by blast
qed

theorem game_result_sign_witness:
  "game_result (PokerGameState [Card ''A'' ''Spades'', Card ''K'' ''Spades'']
      [Card ''Q'' ''Spades'', Card ''J'' ''Spades'', Card ''10'' ''Spades''] 0 False 0) = Inr 1 \<and>
   game_result (PokerGameState [Card ''2'' ''Clubs'', Card ''7'' ''Diamonds'']
      [Card ''9'' ''Hearts'', Card ''J'' ''Spades'', Card ''4'' ''Diamonds'', Card ''K'' ''Clubs'',
       Card ''3'' ''Clubs''] 0 False 0) = Inr (- 1)"
proof -
  let ?s = "PokerGameState [Card ''A'' ''Spades'', Card ''K'' ''Spades'']
      [Card ''Q'' ''Spades'', Card ''J'' ''Spades'', Card ''10'' ''Spades''] 0 False 0"
  let ?t = "PokerGameState [Card ''2'' ''Clubs'', Card ''7'' ''Diamonds'']
      [Card ''9'' ''Hearts'', Card ''J'' ''Spades'', Card ''4'' ''Diamonds'', Card ''K'' ''Clubs'',
       Card ''3'' ''Clubs''] 0 False 0"
  have s1: "hand ?s @ community_cards ?s \<noteq> []" by (simp add: PokerGameState_def)
  have s2: "valid_cards (hand ?s @ community_cards ?s)"
    by (simp add: PokerGameState_def valid_cards_def ranks_def Card_def)
  have s3: "hand_rank (hand ?s @ community_cards ?s) = Inr ''Straight Flush''" by code_simp
  have t1: "hand ?t @ community_cards ?t \<noteq> []" by (simp add: PokerGameState_def)
  have t2: "valid_cards (hand ?t @ community_cards ?t)"
    by (simp add: PokerGameState_def valid_cards_def ranks_def Card_def)
  have t3: "hand_rank (hand ?t @ community_cards ?t) = Inr ''High Card''" by code_simp
  from game_result_sign [of ?s] s1 s2 s3 have a: "game_result ?s = Inr 1" by auto
  from game_result_sign [of ?t] t1 t2 t3 have b: "game_result ?t = Inr (- 1)" by auto
  from a b show ?thesis ..
qed

text \<open>
  C10. Every state \<open>legal_moves\<close> returns is terminal: the first is flagged, the others
  have 5 community cards or are flagged. So the loop of \<open>simulate_random_game\<close> stops in
  its input state or in one state chosen from its \<open>legal_moves\<close>, and the function returns.
\<close>

theorem successors_terminal:
  "(\<exists>moves k'. legal_moves rnd k s = Inr (moves, k') \<and>
      (\<forall>s' \<in> set moves. is_terminal s') \<and>
      is_terminal_state (hd moves) \<and>
      (\<forall>s' \<in> set (tl moves). length (community_cards s') = 5 \<or> is_terminal_state s')) \<and>
   (\<exists>r. simulate_random_game rnd k s = Some r) \<and>
   (is_terminal s \<longrightarrow> simulate_loop rnd k s = Some (Inr (s, k))) \<and>
   (\<not> is_terminal s \<longrightarrow>
      (\<exists>moves k'. legal_moves rnd k s = Inr (moves, k') \<and>
         rnd k' mod length moves < length moves \<and>
         simulate_loop rnd k s = Some (Inr (moves ! (rnd k' mod length moves), Suc k'))))"
proof -
  obtain moves k' where m: "legal_moves rnd k s = Inr (moves, k')" "moves \<noteq> []"
    "list_all is_terminal moves" "length moves = 5 \<longleftrightarrow> length (community_cards s) < 5"
    using legal_moves_terminal [of rnd k s] by blast
  have a: "\<forall>s' \<in> set moves. is_terminal s'" using m(3) by (simp add: list_all_iff)
  have b: "is_terminal_state (hd moves)"
  proof (cases "length (community_cards s) < 5")
    case True
    then show ?thesis using legal_moves_lt5 [OF True, of rnd k] m(1)
      by (auto simp: PokerGameState_def)
  next
    case False
    then show ?thesis using legal_moves_ge5 [OF False, of rnd k] m(1)
      by (auto simp: PokerGameState_def)
  qed
  have "set (tl moves) \<subseteq> set moves" using m(2) by (simp add: list.set_sel(2) subsetI)
  then have c: "\<forall>s' \<in> set (tl moves). length (community_cards s') = 5 \<or> is_terminal_state s'"
    using a by (auto simp: is_terminal_def)
  have 1: "\<exists>moves k'. legal_moves rnd k s = Inr (moves, k') \<and>
      (\<forall>s' \<in> set moves. is_terminal s') \<and>
      is_terminal_state (hd moves) \<and>
      (\<forall>s' \<in> set (tl moves). length (community_cards s') = 5 \<or> is_terminal_state s')"
    using m(1) a b c by blast
  have 3: "is_terminal s \<longrightarrow> simulate_loop rnd k s = Some (Inr (s, k))"
    by (simp add: simulate_loop_terminal)
  have 4: "\<not> is_terminal s \<longrightarrow>
      (\<exists>moves k'. legal_moves rnd k s = Inr (moves, k') \<and>
         rnd k' mod length moves < length moves \<and>
         simulate_loop rnd k s = Some (Inr (moves ! (rnd k' mod length moves), Suc k')))"
    using simulate_loop_one [of s rnd k] by blast
  have "\<exists>x. simulate_loop rnd k s = Some (Inr x)"
    using 3 4 by (cases "is_terminal s") auto
  then have 2: "\<exists>r. simulate_random_game rnd k s = Some r"
    by (auto simp: simulate_random_game_def split: prod.splits)
  from 1 2 3 4 show ?thesis by (intro conjI)
qed

theorem successors_terminal_witness:
  "(\<exists>r. simulate_random_game (\<lambda>n. 7 * n + 3) 0
      (PokerGameState [Card ''A'' ''Spades'', Card ''K'' ''Spades'']
         [Card ''Q'' ''Spades'', Card ''J'' ''Spades'', Card ''2'' ''Hearts''] 100 False 10) = Some r) \<and>
   (\<exists>moves k'. legal_moves (\<lambda>n. 7 * n + 3) 0
      (PokerGameState [Card ''A'' ''Spades'', Card ''K'' ''Spades'']
         [Card ''Q'' ''Spades'', Card ''J'' ''Spades'', Card ''2'' ''Hearts''] 100 False 10) = Inr (moves, k') \<and>
      simulate_loop (\<lambda>n. 7 * n + 3) 0
      (PokerGameState [Card ''A'' ''Spades'', Card ''K'' ''Spades'']
         [Card ''Q'' ''Spades'', Card ''J'' ''Spades'', Card ''2'' ''Hearts''] 100 False 10) =
        Some (Inr (moves ! ((7 * k' + 3) mod length moves), Suc k')))"
proof -
  let ?s = "PokerGameState [Card ''A'' ''Spades'', Card ''K'' ''Spades'']
         [Card ''Q'' ''Spades'', Card ''J'' ''Spades'', Card ''2'' ''Hearts''] 100 False 10"
  have n: "\<not> is_terminal ?s" by (simp add: is_terminal_def PokerGameState_def)
  note t = successors_terminal [of "\<lambda>n. 7 * n + 3" 0 ?s]
  from t have a: "\<exists>r. simulate_random_game (\<lambda>n. 7 * n + 3) 0 ?s = Some r" by blast
  from t n have b: "\<exists>moves k'. legal_moves (\<lambda>n. 7 * n + 3) 0 ?s = Inr (moves, k') \<and>
      simulate_loop (\<lambda>n. 7 * n + 3) 0 ?s =
        Some (Inr (moves ! ((7 * k' + 3) mod length moves), Suc k'))" by blast
  from a b show ?thesis ..
qed

section \<open>The claims about the search\<close>

text \<open>
  C9. \<open>choose_move\<close> returns, and never with ZeroDivisionError. After any number of
  simulations from a new root, every child in the store has at least one visit, so
  \<open>best_child\<close>, at whatever node of the store it is called, never divides by zero:
  a child is appended by \<open>expand\<close> and visited by \<open>backpropagate\<close> within the same
  simulation. On a state whose cards can be evaluated no other failure occurs either:
  \<open>choose_move\<close> returns a terminal state.
\<close>

theorem no_division_by_zero:
  "(\<exists>r. choose_move rnd k s = Some r \<and> r \<noteq> Inl ZeroDivisionError) \<and>
   (\<forall>n h k' m. simulations n rnd k [Node s None] = Some (Inr (h, k')) \<and> m < length h \<longrightarrow>
      (\<forall>c \<in> set (children (h ! m)). 1 \<le> visits (h ! c)) \<and>
      best_child h m (141 / 100) \<noteq> Inl ZeroDivisionError) \<and>
   (state_ok s \<longrightarrow> (\<exists>s' k'. choose_move rnd k s = Some (Inr (s', k')) \<and> is_terminal s'))"
proof -
  note init = tree_shape_root_only [of s]
  have c: "state_ok s \<longrightarrow> (\<exists>s' k'. choose_move rnd k s = Some (Inr (s', k')) \<and> is_terminal s')"
    using choose_move_returns [of s rnd k] by blast
  have a: "\<exists>r. choose_move rnd k s = Some r \<and> r \<noteq> Inl ZeroDivisionError"
  proof -
    from simulations_ok [OF init, of 1000 rnd k] obtain r where
      r: "simulations 1000 rnd k [Node s None] = Some r" "r \<noteq> Inl ZeroDivisionError"
      "\<forall>h' k'. r = Inr (h', k') \<longrightarrow> tree_shape h' \<and> visited h' 0"
      by blast
    show ?thesis
    proof (cases r)
      case (Inl e)
      then show ?thesis using r by (simp add: choose_move_def)
    next
      case (Inr x)
      obtain h k' where x: "x = (h, k')" by (cases x)
      then have t: "tree_shape h" "visited h 0" using r(3) Inr by simp_all
      have "0 < length h" using tree_shape_root [OF t(1)] by simp
      then have "best_child h 0 (141 / 100) \<noteq> Inl ZeroDivisionError"
        using t by (intro best_child_ok(1))
      then have "and_then (best_child h 0 (141 / 100)) (\<lambda>c. Inr (state (h ! c), k'))
          \<noteq> Inl ZeroDivisionError"
        by (cases "best_child h 0 (141 / 100)") (simp_all add: and_then_def)
      then show ?thesis using r(1) Inr x by (simp add: choose_move_def)
    qed
  qed
  have b: "(\<forall>c \<in> set (children (h ! m)). 1 \<le> visits (h ! c)) \<and>
      best_child h m (141 / 100) \<noteq> Inl ZeroDivisionError"
    if "simulations n rnd k [Node s None] = Some (Inr (h, k'))" "m < length h" for n h k' m
  proof -
    from simulations_ok [OF init, of n rnd k] that(1)
    have t: "tree_shape h" "visited h 0" by auto
    have "1 \<le> visits (h ! c)" if "c \<in> set (children (h ! m))" for c
    proof -
      have "m < c \<and> c < length h" using t(1) \<open>m < length h\<close> that by (rule tree_shape_children)
      then show ?thesis using t(2) by (intro visited_nth [of h 0]) simp_all
    qed
    moreover have "best_child h m (141 / 100) \<noteq> Inl ZeroDivisionError"
      using t that(2) by (rule best_child_ok(1))
    ultimately show ?thesis by blast
  qed
  from a b c show ?thesis by blast
qed

theorem no_division_by_zero_witness:
  "(\<exists>s' k'. choose_move (\<lambda>n. 7 * n + 3) 0
      (PokerGameState [Card ''A'' ''Spades'', Card ''K'' ''Spades'']
         [Card ''Q'' ''Spades'', Card ''J'' ''Spades'', Card ''2'' ''Hearts''] 100 False 10)
      = Some (Inr (s', k')) \<and> is_terminal s') \<and>
   (\<exists>h k' c. simulations 1000 (\<lambda>n. 7 * n + 3) 0
      [Node (PokerGameState [Card ''A'' ''Spades'', Card ''K'' ''Spades'']
         [Card ''Q'' ''Spades'', Card ''J'' ''Spades'', Card ''2'' ''Hearts''] 100 False 10) None]
      = Some (Inr (h, k')) \<and>
      best_child h 0 (141 / 100) = Inr c \<and> 1 \<le> visits (h ! c))"
proof -
  let ?s = "PokerGameState [Card ''A'' ''Spades'', Card ''K'' ''Spades'']
         [Card ''Q'' ''Spades'', Card ''J'' ''Spades'', Card ''2'' ''Hearts''] 100 False 10"
  let ?rnd = "\<lambda>n::nat. 7 * n + 3"
  note t = no_division_by_zero [of ?rnd 0 ?s]
  have ok: "state_ok ?s"
    by (simp add: state_ok_def valid_cards_def PokerGameState_def ranks_def Card_def)
  from t ok have a: "\<exists>s' k'. choose_move ?rnd 0 ?s = Some (Inr (s', k')) \<and> is_terminal s'"
    by blast
  from simulations_good [OF tree_shape_root_only good_states_root_only [OF ok], of 1000 ?rnd 0]
  obtain h k' where
    h: "simulations 1000 ?rnd 0 [Node ?s None] = Some (Inr (h, k'))" "tree_shape h" "visited h 0"
    "children (h ! 0) \<noteq> []"
    by auto
  have l: "0 < length h" and root: "parent (h ! 0) = None"
    using tree_shape_root [OF h(2)] by simp_all
  from best_child_greatest(1) [OF h(4) root_children_visited [OF h(2,3) l] root, of "141 / 100"]
  obtain c where c: "best_child h 0 (141 / 100) = Inr c" "c \<in> set (children (h ! 0))"
    by blast
  from t h(1) l have "\<forall>c \<in> set (children (h ! 0)). 1 \<le> visits (h ! c)"
    by blast
  then have "1 \<le> visits (h ! c)" using c(2) by blast
  with h(1) c(1) have b: "\<exists>h k' c. simulations 1000 ?rnd 0 [Node ?s None] = Some (Inr (h, k')) \<and>
      best_child h 0 (141 / 100) = Inr c \<and> 1 \<le> visits (h ! c)"
    by blast
  from a b show ?thesis ..
qed

text \<open>
  C5 on the code. For a node with a parent, \<open>best_child\<close> takes the logarithm of the
  visits of that parent (\<open>self.parent.visits\<close>), not of the node whose children it
  compares. In \<open>example_tree\<close> it returns node 3 for node 1, where the claim's expression,
  with the 6 visits of node 1, is greatest at node 2.
\<close>

theorem best_child_uses_grandparent_visits:
  "best_child example_tree 1 (141 / 100) = Inr 3 \<and>
   py_max (\<lambda>x. ucb1_key (141 / 100) (example_tree ! 1) (example_tree ! x))
     (children (example_tree ! 1)) = Inr 2"
proof
  have c: "children (example_tree ! 1) = [2, 3]" "parent (example_tree ! 1) = Some 0"
    by (simp_all add: example_tree_def)
  have "1 / 2 + 141 / 100 * (sqrt (ln 1000) / 2) < - 1 + 141 / 100 * sqrt (ln (1000::real))"
    using sqrt_ln_1000 by simp
  then show "best_child example_tree 1 (141 / 100) = Inr 3"
    unfolding best_child_def c option.case py_max_def list.case key_grandparent_2
      key_grandparent_3 sum.case max_from.simps
    by simp
  have "\<not> 1 / 2 + 141 / 100 * (sqrt (ln 6) / 2) < - 1 + 141 / 100 * sqrt (ln (6::real))"
    using sqrt_ln_6 by simp
  then show "py_max (\<lambda>x. ucb1_key (141 / 100) (example_tree ! 1) (example_tree ! x))
     (children (example_tree ! 1)) = Inr 2"
    unfolding c py_max_def list.case key_parent_2 key_parent_3 sum.case max_from.simps
    by simp
qed

end
